theory Spec2Isabelle
  imports Complex_Main "HOL-Library.Word"
begin

section \<open>JavaScript numbers\<close>

text \<open>
  The TypeScript type \<open>number\<close>. A finite value is carried as a real, and the operators
  of this section are exact on finite values: IEEE rounding and overflow are not part of
  them (the next section adds both, for the properties that depend on the rounding), and
  there is a single zero. The three special values and the way they arise and propagate follow IEEE 754 as
  JavaScript implements it: a nonzero finite value divided by zero is an infinity, zero
  divided by zero is \<open>NaN\<close>, \<open>NaN\<close> propagates through every operation and every
  comparison with \<open>NaN\<close> is false. Because there is one zero only, the sign of an infinity
  produced by dividing by a JavaScript \<open>-0\<close> may differ from the model's; whether the result
  is finite never does.
\<close>

datatype number = Fin real | PInf | NInf | NaN

instantiation number :: "{plus, minus, uminus, times, inverse, abs, ord}"
begin

fun uminus_number :: "number \<Rightarrow> number" where
  "uminus_number (Fin a) = Fin (- a)"
| "uminus_number PInf = NInf"
| "uminus_number NInf = PInf"
| "uminus_number NaN = NaN"

fun abs_number :: "number \<Rightarrow> number" where
  "abs_number (Fin a) = Fin \<bar>a\<bar>"
| "abs_number PInf = PInf"
| "abs_number NInf = PInf"
| "abs_number NaN = NaN"

fun plus_number :: "number \<Rightarrow> number \<Rightarrow> number" where
  "plus_number (Fin a) (Fin b) = Fin (a + b)"
| "plus_number (Fin a) PInf = PInf"
| "plus_number (Fin a) NInf = NInf"
| "plus_number PInf (Fin b) = PInf"
| "plus_number PInf PInf = PInf"
| "plus_number NInf (Fin b) = NInf"
| "plus_number NInf NInf = NInf"
| "plus_number _ _ = NaN"

definition minus_number :: "number \<Rightarrow> number \<Rightarrow> number" where
  "minus_number a b = a + (- b)"

fun times_number :: "number \<Rightarrow> number \<Rightarrow> number" where
  "times_number (Fin a) (Fin b) = Fin (a * b)"
| "times_number NaN _ = NaN"
| "times_number _ NaN = NaN"
| "times_number (Fin a) PInf = (if a = 0 then NaN else if 0 < a then PInf else NInf)"
| "times_number (Fin a) NInf = (if a = 0 then NaN else if 0 < a then NInf else PInf)"
| "times_number PInf (Fin b) = (if b = 0 then NaN else if 0 < b then PInf else NInf)"
| "times_number NInf (Fin b) = (if b = 0 then NaN else if 0 < b then NInf else PInf)"
| "times_number PInf PInf = PInf"
| "times_number PInf NInf = NInf"
| "times_number NInf PInf = NInf"
| "times_number NInf NInf = PInf"

fun divide_number :: "number \<Rightarrow> number \<Rightarrow> number" where
  "divide_number (Fin a) (Fin b) =
     (if b \<noteq> 0 then Fin (a / b)
      else if a = 0 then NaN else if 0 < a then PInf else NInf)"
| "divide_number NaN _ = NaN"
| "divide_number _ NaN = NaN"
| "divide_number (Fin a) PInf = Fin 0"
| "divide_number (Fin a) NInf = Fin 0"
| "divide_number PInf (Fin b) = (if 0 \<le> b then PInf else NInf)"
| "divide_number NInf (Fin b) = (if 0 \<le> b then NInf else PInf)"
| "divide_number _ _ = NaN"

definition inverse_number :: "number \<Rightarrow> number" where
  "inverse_number a = divide (Fin 1) a"

fun less_number :: "number \<Rightarrow> number \<Rightarrow> bool" where
  "less_number (Fin a) (Fin b) = (a < b)"
| "less_number (Fin a) PInf = True"
| "less_number NInf (Fin b) = True"
| "less_number NInf PInf = True"
| "less_number _ _ = False"

fun less_eq_number :: "number \<Rightarrow> number \<Rightarrow> bool" where
  "less_eq_number (Fin a) (Fin b) = (a \<le> b)"
| "less_eq_number NaN _ = False"
| "less_eq_number _ NaN = False"
| "less_eq_number NInf _ = True"
| "less_eq_number _ PInf = True"
| "less_eq_number _ _ = False"

instance ..

end

text \<open>An array length or loop index used as a number.\<close>

definition num :: "nat \<Rightarrow> number" where
  "num k = Fin (real k)"

fun isFinite :: "number \<Rightarrow> bool" where
  "isFinite (Fin a) = True"
| "isFinite _ = False"

section \<open>Rounding to binary64\<close>

text \<open>
  The operators of \<open>number\<close> above are exact on finite values. Where a property depends on
  the rounding of the results, every operation is followed by \<open>rounded\<close>, IEEE 754
  round-to-nearest, ties to even, in binary64: 53 significant bits, exponents from
  \<open>-1022\<close> to \<open>1023\<close>, gradual underflow, and overflow to an infinity.

  \<open>roundHalfEven\<close> rounds a real to the nearest integer, a tie going to the even one.
  \<open>binade x\<close> is the exponent \<open>k\<close> with \<open>2 ^ k \<le> |x| < 2 ^ (k + 1)\<close>, kept between \<open>-1022\<close>
  and \<open>1023\<close>: \<open>binadeBelow n\<close> searches the exponents below \<open>n - 1022\<close> downwards. The
  binary64 values of that binade are the multiples of \<open>2 ^ (k - 52)\<close>, and \<open>nearest64 x\<close> is
  the one nearest to \<open>x\<close>; at the exponent \<open>-1022\<close> these are the subnormal numbers and
  zero. \<open>minNormal\<close> is the smallest positive normal number. \<open>toDouble\<close> adds the overflow:
  a result of magnitude \<open>2 ^ 1024\<close> is an infinity.
\<close>

definition roundHalfEven :: "real \<Rightarrow> int" where
  "roundHalfEven r =
     (let f = \<lfloor>r\<rfloor>
      in if of_int f + 1 / 2 < r then f + 1
         else if r < of_int f + 1 / 2 then f
         else if even f then f
         else f + 1)"

fun binadeBelow :: "nat \<Rightarrow> real \<Rightarrow> int" where
  "binadeBelow 0 x = - 1022"
| "binadeBelow (Suc n) x =
     (if 2 powi (int n - 1021) \<le> \<bar>x\<bar> then int n - 1021 else binadeBelow n x)"

definition binade :: "real \<Rightarrow> int" where
  "binade x = binadeBelow 2045 x"

definition nearest64 :: "real \<Rightarrow> real" where
  "nearest64 x =
     (let e = binade x - 52
      in of_int (roundHalfEven (x / 2 powi e)) * 2 powi e)"

definition minNormal :: real where
  "minNormal = 2 powi (- 1022)"

definition overflowThreshold :: real where
  "overflowThreshold = 2 ^ 1024"

definition toDouble :: "real \<Rightarrow> number" where
  "toDouble x =
     (if \<bar>nearest64 x\<bar> < overflowThreshold then Fin (nearest64 x)
      else if 0 < x then PInf else NInf)"

fun rounded :: "number \<Rightarrow> number" where
  "rounded (Fin x) = toDouble x"
| "rounded v = v"

text \<open>The four arithmetic operators of JavaScript on numbers.\<close>

definition add64 :: "number \<Rightarrow> number \<Rightarrow> number" where
  "add64 a b = rounded (a + b)"

definition sub64 :: "number \<Rightarrow> number \<Rightarrow> number" where
  "sub64 a b = rounded (a - b)"

definition mul64 :: "number \<Rightarrow> number \<Rightarrow> number" where
  "mul64 a b = rounded (a * b)"

definition div64 :: "number \<Rightarrow> number \<Rightarrow> number" where
  "div64 a b = rounded (a / b)"

section \<open>The justified row layout\<close>

text \<open>
  \<open>UploadedImage\<close>, \<open>LayoutConfig\<close> and \<open>PositionedImage\<close> as declared in the sources.
  Of an uploaded image the layout reads \<open>aspectRatio\<close> only; \<open>uid\<close> stands for the
  image's \<open>id\<close> and keeps the items apart (the file handle, the URL and the pixel
  dimensions are never read by the layout). The coordinates of a positioned image are
  \<open>x, y, width, height\<close> in the source; they carry a prefix here because a record field is
  a constant of the theory.
\<close>

record UploadedImage =
  uid :: string
  aspectRatio :: number

record LayoutConfig =
  canvasSize :: number
  gap :: number
  backgroundColor :: string
  targetRowHeightRatio :: number

record PositionedImage =
  image :: UploadedImage
  pos_x :: number
  pos_y :: number
  pos_width :: number
  pos_height :: number

text \<open>\<open>row.reduce((sum, img) => sum + img.aspectRatio, 0)\<close>\<close>

definition totalAspect :: "UploadedImage list \<Rightarrow> number" where
  "totalAspect row = foldl (\<lambda>sum img. sum + aspectRatio img) (Fin 0) row"

text \<open>
  The body of \<open>rowImages.forEach\<close> in \<open>processRow\<close>; the state is the layout built so
  far and \<open>currentX\<close>.
\<close>

definition placeImage ::
  "LayoutConfig \<Rightarrow> number \<Rightarrow> number \<Rightarrow> PositionedImage list \<times> number \<Rightarrow> UploadedImage
     \<Rightarrow> PositionedImage list \<times> number" where
  "placeImage cfg rowHeight currentY st img =
     (case st of (layout, currentX) \<Rightarrow>
        let w = rowHeight * aspectRatio img
        in (layout @ [\<lparr>image = img, pos_x = currentX, pos_y = currentY,
                        pos_width = w, pos_height = rowHeight\<rparr>],
            currentX + (w + gap cfg)))"

text \<open>
  \<open>processRow\<close> is a closure over \<open>layout\<close> and \<open>currentY\<close>: it takes both and returns
  them updated.
\<close>

definition processRow ::
  "LayoutConfig \<Rightarrow> PositionedImage list \<times> number \<Rightarrow> UploadedImage list \<Rightarrow> bool
     \<Rightarrow> PositionedImage list \<times> number" where
  "processRow cfg st rowImages isLastRow =
     (case st of (layout, currentY) \<Rightarrow>
        if length rowImages = 0 then (layout, currentY)
        else
          let targetRowHeight = canvasSize cfg * targetRowHeightRatio cfg;
              totalAspectRatio = totalAspect rowImages;
              totalGapWidth = num (length rowImages + 1) * gap cfg;
              availableWidth = canvasSize cfg - totalGapWidth;
              rowHeight0 = availableWidth / totalAspectRatio;
              rowHeight = (if isLastRow \<and> rowHeight0 > targetRowHeight * Fin 1.5
                           then targetRowHeight else rowHeight0);
              placed = foldl (placeImage cfg rowHeight currentY) (layout, gap cfg) rowImages
          in (fst placed, currentY + (rowHeight + gap cfg)))"

text \<open>
  The body of \<open>for (const img of images)\<close>; the state is \<open>layout\<close>, \<open>currentRow\<close> and
  \<open>currentY\<close>. (\<open>currentContentWidth\<close> is computed by the source and never read.)
\<close>

definition addImage ::
  "LayoutConfig \<Rightarrow> PositionedImage list \<times> UploadedImage list \<times> number \<Rightarrow> UploadedImage
     \<Rightarrow> PositionedImage list \<times> UploadedImage list \<times> number" where
  "addImage cfg st img =
     (case st of (layout, currentRow0, currentY) \<Rightarrow>
        let targetRowHeight = canvasSize cfg * targetRowHeightRatio cfg;
            currentRow = currentRow0 @ [img];
            currentTotalAspectRatio = totalAspect currentRow;
            widthAtTargetHeight =
              (targetRowHeight * currentTotalAspectRatio)
                + (num (length currentRow + 1) * gap cfg)
        in if widthAtTargetHeight \<ge> canvasSize cfg
           then (case processRow cfg (layout, currentY) currentRow False of
                   (layout', currentY') \<Rightarrow> (layout', [], currentY'))
           else (layout, currentRow, currentY))"

definition layoutLoop ::
  "LayoutConfig \<Rightarrow> UploadedImage list
     \<Rightarrow> PositionedImage list \<times> UploadedImage list \<times> number" where
  "layoutLoop cfg images = foldl (addImage cfg) ([], [], gap cfg) images"

definition calculateLayout :: "UploadedImage list \<Rightarrow> LayoutConfig \<Rightarrow> PositionedImage list" where
  "calculateLayout images cfg =
     (if length images = 0 then []
      else
        case layoutLoop cfg images of (layout, currentRow, currentY) \<Rightarrow>
          if length currentRow > 0
          then fst (processRow cfg (layout, currentY) currentRow True)
          else layout)"

text \<open>
  Two derived notions used to state properties of \<open>processRow\<close>: the value of its local
  \<open>rowHeight\<close>, and the rectangles its \<open>forEach\<close> appends when it starts at \<open>currentX\<close>.
  Lemmas \<open>foldl_placeImage\<close> and \<open>processRow_eq\<close> below tie them to the code.
\<close>

definition rowHeightOf :: "LayoutConfig \<Rightarrow> UploadedImage list \<Rightarrow> bool \<Rightarrow> number" where
  "rowHeightOf cfg row isLastRow =
     (let computed = (canvasSize cfg - num (length row + 1) * gap cfg) / totalAspect row
      in if isLastRow \<and> computed > canvasSize cfg * targetRowHeightRatio cfg * Fin 1.5
         then canvasSize cfg * targetRowHeightRatio cfg else computed)"

fun rowRects ::
  "LayoutConfig \<Rightarrow> number \<Rightarrow> number \<Rightarrow> number \<Rightarrow> UploadedImage list \<Rightarrow> PositionedImage list" where
  "rowRects cfg rowHeight currentY currentX [] = []"
| "rowRects cfg rowHeight currentY currentX (img # row) =
     \<lparr>image = img, pos_x = currentX, pos_y = currentY,
      pos_width = rowHeight * aspectRatio img, pos_height = rowHeight\<rparr>
     # rowRects cfg rowHeight currentY (currentX + (rowHeight * aspectRatio img + gap cfg)) row"

text \<open>
  Notions used to state the properties of the layout: the aspect ratio of an item as a
  real, an item whose aspect ratio is a finite positive number (the invariant of a
  loaded image), and a rectangle all of whose coordinates are non-negative.
\<close>

definition ratioOf :: "UploadedImage \<Rightarrow> real" where
  "ratioOf img = (case aspectRatio img of Fin a \<Rightarrow> a | _ \<Rightarrow> 0)"








text \<open>
  \<open>processRow\<close> once more, every operation rounded to binary64: \<open>totalAspect64\<close> is the
  \<open>reduce\<close>, \<open>placeImage64\<close> the body of the \<open>forEach\<close>. (\<open>rowImages.length + 1\<close> is exact: an
  array has fewer than \<open>2 ^ 32\<close> elements.) \<open>rowRects64\<close> are the rectangles the \<open>forEach\<close>
  appends, as \<open>rowRects\<close> above; lemma \<open>processRow64_eq\<close> ties them to \<open>processRow64\<close>.
\<close>

definition totalAspect64 :: "UploadedImage list \<Rightarrow> number" where
  "totalAspect64 row = foldl (\<lambda>sum img. add64 sum (aspectRatio img)) (Fin 0) row"

definition placeImage64 ::
  "LayoutConfig \<Rightarrow> number \<Rightarrow> number \<Rightarrow> PositionedImage list \<times> number \<Rightarrow> UploadedImage
     \<Rightarrow> PositionedImage list \<times> number" where
  "placeImage64 cfg rowHeight currentY st img =
     (case st of (layout, currentX) \<Rightarrow>
        let w = mul64 rowHeight (aspectRatio img)
        in (layout @ [\<lparr>image = img, pos_x = currentX, pos_y = currentY,
                        pos_width = w, pos_height = rowHeight\<rparr>],
            add64 currentX (add64 w (gap cfg))))"

definition processRow64 ::
  "LayoutConfig \<Rightarrow> PositionedImage list \<times> number \<Rightarrow> UploadedImage list \<Rightarrow> bool
     \<Rightarrow> PositionedImage list \<times> number" where
  "processRow64 cfg st rowImages isLastRow =
     (case st of (layout, currentY) \<Rightarrow>
        if length rowImages = 0 then (layout, currentY)
        else
          let targetRowHeight = mul64 (canvasSize cfg) (targetRowHeightRatio cfg);
              totalAspectRatio = totalAspect64 rowImages;
              totalGapWidth = mul64 (num (length rowImages + 1)) (gap cfg);
              availableWidth = sub64 (canvasSize cfg) totalGapWidth;
              rowHeight0 = div64 availableWidth totalAspectRatio;
              rowHeight = (if isLastRow \<and> rowHeight0 > mul64 targetRowHeight (Fin 1.5)
                           then targetRowHeight else rowHeight0);
              placed = foldl (placeImage64 cfg rowHeight currentY) (layout, gap cfg) rowImages
          in (fst placed, add64 currentY (add64 rowHeight (gap cfg))))"

fun rowRects64 ::
  "LayoutConfig \<Rightarrow> number \<Rightarrow> number \<Rightarrow> number \<Rightarrow> UploadedImage list \<Rightarrow> PositionedImage list" where
  "rowRects64 cfg rowHeight currentY currentX [] = []"
| "rowRects64 cfg rowHeight currentY currentX (img # row) =
     \<lparr>image = img, pos_x = currentX, pos_y = currentY,
      pos_width = mul64 rowHeight (aspectRatio img), pos_height = rowHeight\<rparr>
     # rowRects64 cfg rowHeight currentY
         (add64 currentX (add64 (mul64 rowHeight (aspectRatio img)) (gap cfg))) row"

text \<open>
  Notions used to bound the rounding error of a row: an item whose aspect ratio is a
  positive normal number, the running sum of a list of reals with every addition
  rounded, and \<open>currentX\<close> after the widths \<open>ws\<close> have been placed, starting from \<open>gap\<close>.
\<close>

definition normalRatio :: "UploadedImage \<Rightarrow> bool" where
  "normalRatio img = (case aspectRatio img of Fin a \<Rightarrow> minNormal \<le> a | _ \<Rightarrow> False)"

definition sum64 :: "real \<Rightarrow> real list \<Rightarrow> real" where
  "sum64 a rs = foldl (\<lambda>s r. nearest64 (s + r)) a rs"

definition posX :: "real \<Rightarrow> real list \<Rightarrow> real" where
  "posX g ws = foldl (\<lambda>x w. nearest64 (x + nearest64 (w + g))) g ws"

section \<open>The linear solver and the homography\<close>

text \<open>
  \<open>solve\<close> works in place on the arrays it is given, so the arrays of numbers live in a
  heap: a reference is an index into it, and allocation appends. The outer array of a
  matrix holds the references of its rows; \<open>solve\<close> only reads it, and
  \<open>getHomographyMatrix\<close> builds it locally, so it is carried as a list of references.
  The solution vector is allocated by \<open>solve\<close> and shared with nobody before it is
  returned, so it is carried as a list too.

  A read past the end of an array yields \<open>undefined\<close>, which every use in \<open>solve\<close>
  turns into \<open>NaN\<close>; a write past the end extends the array, the holes reading
  \<open>undefined\<close>. A reference always designates an allocated array; for an index outside
  the heap the model reads \<open>NaN\<close> and writes nothing.
\<close>

type_synonym ref = nat
type_synonym heap = "number list list"

definition elem :: "number list \<Rightarrow> nat \<Rightarrow> number" where
  "elem xs j = (if j < length xs then xs ! j else NaN)"

definition setElem :: "number list \<Rightarrow> nat \<Rightarrow> number \<Rightarrow> number list" where
  "setElem xs j v =
     (if j < length xs then xs[j := v] else xs @ replicate (j - length xs) NaN @ [v])"

definition rd :: "heap \<Rightarrow> ref \<Rightarrow> nat \<Rightarrow> number" where
  "rd h a j = (if a < length h then elem (h ! a) j else NaN)"

definition wr :: "heap \<Rightarrow> ref \<Rightarrow> nat \<Rightarrow> number \<Rightarrow> heap" where
  "wr h a j v = (if a < length h then h[a := setElem (h ! a) j v] else h)"

definition alloc :: "heap \<Rightarrow> number list \<Rightarrow> heap \<times> ref" where
  "alloc h xs = (h @ [xs], length h)"

definition push :: "heap \<Rightarrow> ref \<Rightarrow> number \<Rightarrow> heap" where
  "push h a v = (if a < length h then h[a := h ! a @ [v]] else h)"

text \<open>Lines 12 to 19: the row of the largest \<open>|A[k][i]|\<close>, \<open>k \<ge> i\<close>; the first one wins.\<close>

definition findPivot :: "heap \<Rightarrow> ref list \<Rightarrow> nat \<Rightarrow> nat" where
  "findPivot h A i =
     snd (foldl (\<lambda>(maxEl, maxRow) k.
                   if \<bar>rd h (A ! k) i\<bar> > maxEl then (\<bar>rd h (A ! k) i\<bar>, k)
                   else (maxEl, maxRow))
            (\<bar>rd h (A ! i) i\<bar>, i) [i + 1 ..< length A])"

text \<open>Lines 22 to 29: swap the rows \<open>maxRow\<close> and \<open>i\<close> from column \<open>i\<close> on, and \<open>b\<close> with them.\<close>

definition swapRows :: "heap \<Rightarrow> ref list \<Rightarrow> ref \<Rightarrow> nat \<Rightarrow> nat \<Rightarrow> heap" where
  "swapRows h A b i maxRow =
     (let h1 = foldl (\<lambda>h k.
                  let tmp = rd h (A ! maxRow) k;
                      h' = wr h (A ! maxRow) k (rd h (A ! i) k)
                  in wr h' (A ! i) k tmp)
                h [i ..< length A];
          tmp = rd h1 b maxRow;
          h2 = wr h1 b maxRow (rd h1 b i)
      in wr h2 b i tmp)"

text \<open>Lines 32 to 42: clear column \<open>i\<close> below the pivot.\<close>

definition eliminateRow :: "ref list \<Rightarrow> ref \<Rightarrow> nat \<Rightarrow> heap \<Rightarrow> nat \<Rightarrow> heap" where
  "eliminateRow A b i h k =
     (let c = - rd h (A ! k) i / rd h (A ! i) i;
          h1 = foldl (\<lambda>h j.
                  if i = j then wr h (A ! k) j (Fin 0)
                  else wr h (A ! k) j (rd h (A ! k) j + c * rd h (A ! i) j))
                h [i ..< length A]
      in wr h1 b k (rd h1 b k + c * rd h1 b i))"

text \<open>The body of the outer loop, lines 10 to 43.\<close>

definition pivotStep :: "ref list \<Rightarrow> ref \<Rightarrow> heap \<Rightarrow> nat \<Rightarrow> heap" where
  "pivotStep A b h i =
     (let maxRow = findPivot h A i;
          h1 = swapRows h A b i maxRow
      in foldl (eliminateRow A b i) h1 [i + 1 ..< length A])"

definition forwardElimination :: "heap \<Rightarrow> ref list \<Rightarrow> ref \<Rightarrow> heap" where
  "forwardElimination h A b = foldl (pivotStep A b) h [0 ..< length A]"

text \<open>Lines 46 to 53: back substitution, \<open>i\<close> running from \<open>n - 1\<close> down to \<open>0\<close>.\<close>

definition backStep :: "heap \<Rightarrow> ref list \<Rightarrow> ref \<Rightarrow> number list \<Rightarrow> nat \<Rightarrow> number list" where
  "backStep h A b x i =
     (let sum = foldl (\<lambda>sum j. sum + rd h (A ! i) j * elem x j) (Fin 0) [i + 1 ..< length A]
      in setElem x i ((rd h b i - sum) / rd h (A ! i) i))"

definition backSubstitution :: "heap \<Rightarrow> ref list \<Rightarrow> ref \<Rightarrow> number list" where
  "backSubstitution h A b =
     foldl (backStep h A b) (replicate (length A) (Fin 0)) (rev [0 ..< length A])"

definition solve :: "heap \<Rightarrow> ref list \<Rightarrow> ref \<Rightarrow> heap \<times> number list" where
  "solve h A b =
     (let h' = forwardElimination h A b
      in (h', backSubstitution h' A b))"

text \<open>
  \<open>Point\<close>, with its fields \<open>x\<close> and \<open>y\<close>. \<open>getHomographyMatrix\<close> reads \<open>src[i]\<close> and
  \<open>dst[i]\<close> for \<open>i < 4\<close> and takes their fields: with fewer than four points that is a
  property access on \<open>undefined\<close>, a \<open>TypeError\<close>.
\<close>

record Point =
  pt_x :: number
  pt_y :: number

datatype error = TypeError

text \<open>The body of the loop of \<open>getHomographyMatrix\<close>; the state is the heap and \<open>A\<close>.\<close>

definition addCorrespondence ::
  "ref \<Rightarrow> heap \<times> ref list \<Rightarrow> Point \<times> Point \<Rightarrow> heap \<times> ref list" where
  "addCorrespondence b st sd =
     (case st of (h, A) \<Rightarrow> case sd of (s, d) \<Rightarrow>
        let (h1, r1) = alloc h [pt_x d, pt_y d, Fin 1, Fin 0, Fin 0, Fin 0,
                                - pt_x s * pt_x d, - pt_x s * pt_y d];
            A1 = A @ [r1];
            (h2, r2) = alloc h1 [Fin 0, Fin 0, Fin 0, pt_x d, pt_y d, Fin 1,
                                 - pt_y s * pt_x d, - pt_y s * pt_y d];
            A2 = A1 @ [r2];
            h3 = push h2 b (pt_x s);
            h4 = push h3 b (pt_y s)
        in (h4, A2))"

definition getHomographyMatrix ::
  "heap \<Rightarrow> Point list \<Rightarrow> Point list \<Rightarrow> error + heap \<times> number list" where
  "getHomographyMatrix h src dst =
     (if length src < 4 \<or> length dst < 4 then Inl TypeError
      else
        let (h0, b) = alloc h [];
            (h1, A) = foldl (addCorrespondence b) (h0, []) (zip (take 4 src) (take 4 dst));
            (h2, x) = solve h1 A b
        in Inr (h2, x @ [Fin 1]))"

text \<open>
  What a call may have written: \<open>unchangedOutside S h h'\<close> says that \<open>h'\<close> has the arrays
  of \<open>h\<close>, all with their contents of before except those whose reference is in \<open>S\<close>.
\<close>

definition unchangedOutside :: "ref set \<Rightarrow> heap \<Rightarrow> heap \<Rightarrow> bool" where
  "unchangedOutside S h h' = (length h' = length h \<and> (\<forall>a < length h. a \<notin> S \<longrightarrow> h' ! a = h ! a))"

text \<open>
  Three observations of a run of \<open>solve\<close>, used to state what a zero pivot does to the
  result. \<open>selectedPivot h A b i\<close> is the value of \<open>A[i][i]\<close> in iteration \<open>i\<close> of the outer
  loop, right after the row swap: the divisor of every factor \<open>c\<close> of that iteration.
  \<open>nanBlock A b m\<close> says that the rows and columns from \<open>m\<close> on, and \<open>b\<close> from \<open>m\<close> on, hold
  \<open>NaN\<close> only. \<open>zeroColumn A b i D\<close> describes the elimination below a zero pivot: the column
  is zero from the diagonal down, and the rows in \<open>D\<close>, already processed, hold \<open>NaN\<close> to
  the right of the diagonal and in \<open>b\<close>.
\<close>

definition selectedPivot :: "heap \<Rightarrow> ref list \<Rightarrow> ref \<Rightarrow> nat \<Rightarrow> number" where
  "selectedPivot h A b i =
     (let hi = foldl (pivotStep A b) h [0 ..< i];
          hs = swapRows hi A b i (findPivot hi A i)
      in rd hs (A ! i) i)"

definition nanBlock :: "ref list \<Rightarrow> ref \<Rightarrow> nat \<Rightarrow> heap \<Rightarrow> bool" where
  "nanBlock A b m h =
     ((\<forall>k j. m \<le> k \<and> k < length A \<and> m \<le> j \<and> j < length A \<longrightarrow> rd h (A ! k) j = NaN)
      \<and> (\<forall>k. m \<le> k \<and> k < length A \<longrightarrow> rd h b k = NaN))"

definition zeroColumn :: "ref list \<Rightarrow> ref \<Rightarrow> nat \<Rightarrow> nat set \<Rightarrow> heap \<Rightarrow> bool" where
  "zeroColumn A b i D h =
     (rd h (A ! i) i = Fin 0
      \<and> (\<forall>k. i < k \<and> k < length A \<longrightarrow> \<not> \<bar>rd h (A ! k) i\<bar> > Fin 0)
      \<and> (\<forall>k \<in> D. (\<forall>j. i < j \<and> j < length A \<longrightarrow> rd h (A ! k) j = NaN) \<and> rd h b k = NaN))"

text \<open>
  \<open>lowerZero A m\<close>: in the columns before \<open>m\<close>, every entry below the diagonal is \<open>0\<close>.
\<close>

definition lowerZero :: "ref list \<Rightarrow> nat \<Rightarrow> heap \<Rightarrow> bool" where
  "lowerZero A m h = (\<forall>i k. i < m \<and> i < k \<and> k < length A \<longrightarrow> rd h (A ! k) i = Fin 0)"

section \<open>The resampling loop of warpPerspective\<close>

text \<open>
  \<open>ImageData.data\<close> is a \<open>Uint8ClampedArray\<close>: a fixed-length array of bytes. Reading an
  element gives a number; reading at anything but an index of the array gives
  \<open>undefined\<close>, which the arithmetic of the loop turns into \<open>NaN\<close>. Writing converts the
  number with \<open>ToUint8Clamp\<close> (clamp to \<open>0..255\<close>, round to nearest, ties to even, \<open>NaN\<close>
  to \<open>0\<close>); writing at anything but an index of the array does nothing.
\<close>

type_synonym pixels = "8 word list"

definition toUint8Clamp :: "number \<Rightarrow> 8 word" where
  "toUint8Clamp v =
     (case v of
        Fin r \<Rightarrow>
          if r \<le> 0 then 0
          else if 255 \<le> r then 255
          else
            let f = \<lfloor>r\<rfloor>
            in if of_int f + 1 / 2 < r then of_int (f + 1)
               else if r < of_int f + 1 / 2 then of_int f
               else if even f then of_int f
               else of_int (f + 1)
      | PInf \<Rightarrow> 255
      | NInf \<Rightarrow> 0
      | NaN \<Rightarrow> 0)"

fun indexOf :: "number \<Rightarrow> nat option" where
  "indexOf (Fin r) = (if r = of_int \<lfloor>r\<rfloor> \<and> 0 \<le> r then Some (nat \<lfloor>r\<rfloor>) else None)"
| "indexOf _ = None"

definition getPixel :: "pixels \<Rightarrow> number \<Rightarrow> number" where
  "getPixel xs i =
     (case indexOf i of
        Some k \<Rightarrow> if k < length xs then Fin (real (unat (xs ! k))) else NaN
      | None \<Rightarrow> NaN)"

definition setPixel :: "pixels \<Rightarrow> number \<Rightarrow> number \<Rightarrow> pixels" where
  "setPixel xs i v =
     (case indexOf i of
        Some k \<Rightarrow> if k < length xs then xs[k := toUint8Clamp v] else xs
      | None \<Rightarrow> xs)"

text \<open>\<open>Math.floor\<close>\<close>

fun floorN :: "number \<Rightarrow> number" where
  "floorN (Fin r) = Fin (of_int \<lfloor>r\<rfloor>)"
| "floorN v = v"

text \<open>\<open>ctx.createImageData(width, height)\<close>: transparent black.\<close>

definition createImageData :: "nat \<Rightarrow> nat \<Rightarrow> pixels" where
  "createImageData w h = replicate (w * h * 4) 0"

text \<open>
  The body of the inner loop, lines 133 to 180, for the destination pixel \<open>(x, y)\<close>.
  \<open>H\<close> is the array returned by \<open>getHomographyMatrix\<close>, \<open>sData\<close> the source pixels,
  \<open>sw\<close> and \<open>sh\<close> the source size, \<open>w\<close> the destination width. The source's \<open>div\<close> is
  \<open>dv\<close> here.
\<close>

definition warpPixel ::
  "number list \<Rightarrow> pixels \<Rightarrow> nat \<Rightarrow> nat \<Rightarrow> nat \<Rightarrow> nat \<Rightarrow> pixels \<Rightarrow> nat \<Rightarrow> pixels" where
  "warpPixel H sData sw sh w y data x =
     (let dv = elem H 6 * num x + elem H 7 * num y + Fin 1;
          u = (elem H 0 * num x + elem H 1 * num y + elem H 2) / dv;
          v = (elem H 3 * num x + elem H 4 * num y + elem H 5) / dv
      in if u \<ge> Fin 0 \<and> u < num sw - Fin 1 \<and> v \<ge> Fin 0 \<and> v < num sh - Fin 1
         then
           let u0 = floorN u;
               v0 = floorN v;
               u1 = u0 + Fin 1;
               v1 = v0 + Fin 1;
               a = u - u0;
               b = v - v0;
               ia = Fin 1 - a;
               ib = Fin 1 - b;
               idx00 = (v0 * num sw + u0) * Fin 4;
               idx10 = (v0 * num sw + u1) * Fin 4;
               idx01 = (v1 * num sw + u0) * Fin 4;
               idx11 = (v1 * num sw + u1) * Fin 4;
               idx = (num y * num w + num x) * Fin 4;
               data1 = setPixel data idx
                         (ia * ib * getPixel sData idx00
                          + a * ib * getPixel sData idx10
                          + ia * b * getPixel sData idx01
                          + a * b * getPixel sData idx11);
               data2 = setPixel data1 (idx + Fin 1)
                         (ia * ib * getPixel sData (idx00 + Fin 1)
                          + a * ib * getPixel sData (idx10 + Fin 1)
                          + ia * b * getPixel sData (idx01 + Fin 1)
                          + a * b * getPixel sData (idx11 + Fin 1));
               data3 = setPixel data2 (idx + Fin 2)
                         (ia * ib * getPixel sData (idx00 + Fin 2)
                          + a * ib * getPixel sData (idx10 + Fin 2)
                          + ia * b * getPixel sData (idx01 + Fin 2)
                          + a * b * getPixel sData (idx11 + Fin 2))
           in setPixel data3 (idx + Fin 3) (Fin 255)
         else data)"

text \<open>Lines 131 to 182: every row \<open>y < h\<close>, every column \<open>x < w\<close>.\<close>

definition warpLoop ::
  "number list \<Rightarrow> pixels \<Rightarrow> nat \<Rightarrow> nat \<Rightarrow> nat \<Rightarrow> nat \<Rightarrow> pixels \<Rightarrow> pixels" where
  "warpLoop H sData sw sh w h data =
     foldl (\<lambda>data y. foldl (warpPixel H sData sw sh w y) data [0 ..< w]) data [0 ..< h]"

text \<open>
  Notions used to state what the loop leaves in the destination buffer: the source
  coordinate \<open>(u, v)\<close> of the destination pixel \<open>(x, y)\<close>, the bounds test of the loop,
  and the bilinear interpolation of channel \<open>c\<close> at a finite source coordinate, written
  as the weighted sum \<open>(1-a)(1-b) P00 + a(1-b) P10 + (1-a)b P01 + ab P11\<close> of the four
  neighbours and stored as a byte.
\<close>

definition inverseMap :: "number list \<Rightarrow> nat \<Rightarrow> nat \<Rightarrow> number \<times> number" where
  "inverseMap H x y =
     (let dv = elem H 6 * num x + elem H 7 * num y + Fin 1
      in ((elem H 0 * num x + elem H 1 * num y + elem H 2) / dv,
          (elem H 3 * num x + elem H 4 * num y + elem H 5) / dv))"

definition inSource :: "nat \<Rightarrow> nat \<Rightarrow> number \<times> number \<Rightarrow> bool" where
  "inSource sw sh uv =
     (fst uv \<ge> Fin 0 \<and> fst uv < num sw - Fin 1 \<and> snd uv \<ge> Fin 0 \<and> snd uv < num sh - Fin 1)"

definition bilinear :: "pixels \<Rightarrow> nat \<Rightarrow> real \<Rightarrow> real \<Rightarrow> nat \<Rightarrow> 8 word" where
  "bilinear sData sw ur vr c =
     (let u0 = nat \<lfloor>ur\<rfloor>;
          v0 = nat \<lfloor>vr\<rfloor>;
          u1 = u0 + 1;
          v1 = v0 + 1;
          a = ur - real u0;
          b = vr - real v0;
          P = (\<lambda>i j. real (unat (sData ! ((j * sw + i) * 4 + c))))
      in toUint8Clamp
           (Fin ((1 - a) * (1 - b) * P u0 v0 + a * (1 - b) * P u1 v0
                 + (1 - a) * b * P u0 v1 + a * b * P u1 v1)))"

section \<open>The layout and the resampling loop over the arrays of their caller\<close>

text \<open>
  \<open>calculateLayout\<close> receives \<open>images\<close> by reference and keeps its rows in arrays of the
  same kind, so here the arrays of images live in a store of their own: a reference is an
  index into it, and allocation appends. \<open>addImageIn\<close> is the body of the loop for the item
  at index \<open>i\<close>: it reads \<open>images[i]\<close> from the store and pushes it to the array that
  \<open>currentRow\<close> refers to; \<open>currentRow = []\<close> allocates. \<open>processRow\<close> only reads the row it
  is given, and \<open>layout\<close> is shared with nobody before it is returned; both are as above.
  The bound of the loop is the length of \<open>images\<close> on entry.
\<close>

type_synonym imageArrays = "UploadedImage list list"

definition addImageIn ::
  "LayoutConfig \<Rightarrow> ref \<Rightarrow> imageArrays \<times> ref \<times> PositionedImage list \<times> number \<Rightarrow> nat
     \<Rightarrow> imageArrays \<times> ref \<times> PositionedImage list \<times> number" where
  "addImageIn cfg images st i =
     (case st of (arrs, currentRow, layout, currentY) \<Rightarrow>
        let img = arrs ! images ! i;
            targetRowHeight = canvasSize cfg * targetRowHeightRatio cfg;
            arrs1 = arrs[currentRow := arrs ! currentRow @ [img]];
            currentTotalAspectRatio = totalAspect (arrs1 ! currentRow);
            widthAtTargetHeight =
              (targetRowHeight * currentTotalAspectRatio)
                + (num (length (arrs1 ! currentRow) + 1) * gap cfg)
        in if widthAtTargetHeight \<ge> canvasSize cfg
           then (case processRow cfg (layout, currentY) (arrs1 ! currentRow) False of
                   (layout', currentY') \<Rightarrow> (arrs1 @ [[]], length arrs1, layout', currentY'))
           else (arrs1, currentRow, layout, currentY))"

definition calculateLayoutIn ::
  "imageArrays \<Rightarrow> ref \<Rightarrow> LayoutConfig \<Rightarrow> imageArrays \<times> PositionedImage list" where
  "calculateLayoutIn arrs images cfg =
     (if length (arrs ! images) = 0 then (arrs, [])
      else
        case foldl (addImageIn cfg images) (arrs @ [[]], length arrs, [], gap cfg)
               [0 ..< length (arrs ! images)] of
          (arrs', currentRow, layout, currentY) \<Rightarrow>
            if length (arrs' ! currentRow) > 0
            then (arrs', fst (processRow cfg (layout, currentY) (arrs' ! currentRow) True))
            else (arrs', layout))"

text \<open>
  In the resampling loop \<open>sData\<close> and \<open>data\<close> are references to the arrays of two
  \<open>ImageData\<close> objects. Here the pixel arrays live in a store, \<open>load\<close> is an element read
  and \<open>store\<close> an element write through a reference, and the body of the loop performs
  its reads and writes in the order of the source.
\<close>

type_synonym buffers = "pixels list"

definition load :: "buffers \<Rightarrow> ref \<Rightarrow> number \<Rightarrow> number" where
  "load bufs a i = (if a < length bufs then getPixel (bufs ! a) i else NaN)"

definition store :: "buffers \<Rightarrow> ref \<Rightarrow> number \<Rightarrow> number \<Rightarrow> buffers" where
  "store bufs a i v = (if a < length bufs then bufs[a := setPixel (bufs ! a) i v] else bufs)"

definition warpPixelIn ::
  "number list \<Rightarrow> ref \<Rightarrow> nat \<Rightarrow> nat \<Rightarrow> ref \<Rightarrow> nat \<Rightarrow> nat \<Rightarrow> buffers \<Rightarrow> nat \<Rightarrow> buffers" where
  "warpPixelIn H sData sw sh data w y bufs x =
     (let dv = elem H 6 * num x + elem H 7 * num y + Fin 1;
          u = (elem H 0 * num x + elem H 1 * num y + elem H 2) / dv;
          v = (elem H 3 * num x + elem H 4 * num y + elem H 5) / dv
      in if u \<ge> Fin 0 \<and> u < num sw - Fin 1 \<and> v \<ge> Fin 0 \<and> v < num sh - Fin 1
         then
           let u0 = floorN u;
               v0 = floorN v;
               u1 = u0 + Fin 1;
               v1 = v0 + Fin 1;
               a = u - u0;
               b = v - v0;
               ia = Fin 1 - a;
               ib = Fin 1 - b;
               idx00 = (v0 * num sw + u0) * Fin 4;
               idx10 = (v0 * num sw + u1) * Fin 4;
               idx01 = (v1 * num sw + u0) * Fin 4;
               idx11 = (v1 * num sw + u1) * Fin 4;
               idx = (num y * num w + num x) * Fin 4;
               bufs1 = store bufs data idx
                         (ia * ib * load bufs sData idx00
                          + a * ib * load bufs sData idx10
                          + ia * b * load bufs sData idx01
                          + a * b * load bufs sData idx11);
               bufs2 = store bufs1 data (idx + Fin 1)
                         (ia * ib * load bufs1 sData (idx00 + Fin 1)
                          + a * ib * load bufs1 sData (idx10 + Fin 1)
                          + ia * b * load bufs1 sData (idx01 + Fin 1)
                          + a * b * load bufs1 sData (idx11 + Fin 1));
               bufs3 = store bufs2 data (idx + Fin 2)
                         (ia * ib * load bufs2 sData (idx00 + Fin 2)
                          + a * ib * load bufs2 sData (idx10 + Fin 2)
                          + ia * b * load bufs2 sData (idx01 + Fin 2)
                          + a * b * load bufs2 sData (idx11 + Fin 2))
           in store bufs3 data (idx + Fin 3) (Fin 255)
         else bufs)"

definition warpLoopIn ::
  "buffers \<Rightarrow> number list \<Rightarrow> ref \<Rightarrow> nat \<Rightarrow> nat \<Rightarrow> ref \<Rightarrow> nat \<Rightarrow> nat \<Rightarrow> buffers" where
  "warpLoopIn bufs H sData sw sh data w h =
     foldl (\<lambda>bufs y. foldl (warpPixelIn H sData sw sh data w y) bufs [0 ..< w]) bufs [0 ..< h]"

section \<open>Properties of the row layout\<close>

lemmas layout_defs = layoutLoop_def addImage_def processRow_def placeImage_def totalAspect_def
  num_def minus_number_def Let_def

lemma foldl_placeImage:
  "fst (foldl (placeImage cfg rh cy) (layout, cx) row) = layout @ rowRects cfg rh cy cx row"
  by (induction row arbitrary: layout cx) (simp_all add: placeImage_def Let_def)

lemma processRow_eq:
  "row \<noteq> [] \<Longrightarrow>
   processRow cfg (layout, cy) row isLast
     = (layout @ rowRects cfg (rowHeightOf cfg row isLast) cy (gap cfg) row,
        cy + (rowHeightOf cfg row isLast + gap cfg))"
  by (simp add: processRow_def rowHeightOf_def Let_def foldl_placeImage)

lemma rowRects_image: "map image (rowRects cfg rh cy cx row) = row"
  by (induction row arbitrary: cx) simp_all

lemma rowRects_length: "length (rowRects cfg rh cy cx row) = length row"
  by (induction row arbitrary: cx) simp_all

lemma rowRects_fields:
  "p \<in> set (rowRects cfg rh cy cx row) \<Longrightarrow>
   pos_height p = rh \<and> pos_y p = cy \<and> pos_width p = rh * aspectRatio (image p)"
  by (induction row arbitrary: cx) auto

lemma addImage_images:
  "addImage cfg (layout, row, cy) img = (layout', row', cy') \<Longrightarrow>
   map image layout' @ row' = map image layout @ row @ [img]"
  by (auto simp: addImage_def Let_def processRow_eq rowRects_image split: if_splits prod.splits)

lemma layoutLoop_snoc:
  "layoutLoop cfg (images @ [img]) = addImage cfg (layoutLoop cfg images) img"
  by (simp add: layoutLoop_def)

lemma layoutLoop_images:
  "layoutLoop cfg images = (layout, row, cy) \<Longrightarrow> map image layout @ row = images"
proof (induction images arbitrary: layout row cy rule: rev_induct)
  case Nil
  then show ?case by (simp add: layoutLoop_def)
next
  case (snoc img images)
  obtain l0 r0 c0 where st: "layoutLoop cfg images = (l0, r0, c0)"
    by (cases "layoutLoop cfg images") auto
  from snoc.IH[OF st] have "map image l0 @ r0 = images" .
  moreover from snoc.prems st have "addImage cfg (l0, r0, c0) img = (layout, row, cy)"
    by (simp add: layoutLoop_snoc)
  ultimately show ?case using addImage_images by fastforce
qed

lemma calculateLayout_trailing:
  assumes "layoutLoop cfg images = (layout, currentRow, currentY)" and "currentRow \<noteq> []"
  shows "calculateLayout images cfg
           = layout @ rowRects cfg (rowHeightOf cfg currentRow True) currentY (gap cfg) currentRow"
proof -
  from layoutLoop_images[OF assms(1)] assms(2) have "images \<noteq> []" by auto
  then show ?thesis
    using assms by (simp add: calculateLayout_def processRow_eq)
qed

text \<open>
  Claim C2, as stated, fails: with \<open>canvasSize = 0\<close>, and with
  \<open>targetRowHeightRatio = 0\<close>, the call returns a placement list. The source has no
  validation and no \<open>throw\<close>; it returns one zero-sized placement here.
\<close>

theorem calculateLayout_no_InvalidConfig:
  "calculateLayout [\<lparr>uid = ''a'', aspectRatio = Fin 1\<rparr>]
     \<lparr>canvasSize = Fin 0, gap = Fin 0, backgroundColor = ''#000000'',
      targetRowHeightRatio = Fin 0.5\<rparr>
   = [\<lparr>image = \<lparr>uid = ''a'', aspectRatio = Fin 1\<rparr>,
       pos_x = Fin 0, pos_y = Fin 0, pos_width = Fin 0, pos_height = Fin 0\<rparr>]
   \<and> calculateLayout [\<lparr>uid = ''a'', aspectRatio = Fin 1\<rparr>]
     \<lparr>canvasSize = Fin 400, gap = Fin 0, backgroundColor = ''#000000'',
      targetRowHeightRatio = Fin 0\<rparr>
   = [\<lparr>image = \<lparr>uid = ''a'', aspectRatio = Fin 1\<rparr>,
       pos_x = Fin 0, pos_y = Fin 0, pos_width = Fin 0, pos_height = Fin 0\<rparr>]"
  by (simp add: calculateLayout_def layoutLoop_def addImage_def processRow_def placeImage_def
      totalAspect_def num_def minus_number_def Let_def)

text \<open>
  Claim C2, amended: \<open>calculateLayout\<close> validates nothing. For every item sequence and
  every configuration, malformed or not, it returns normally, with exactly one placement
  per item, in input order.
\<close>

theorem calculateLayout_one_placement_per_item:
  "map image (calculateLayout images cfg) = images"
proof (cases "layoutLoop cfg images")
  case (fields layout row cy)
  from layoutLoop_images[OF fields] show ?thesis
    by (cases "row = []") (auto simp: calculateLayout_def fields processRow_eq rowRects_image)
qed

text \<open>
  Claim C3: four items of aspect ratio 1 on a canvas of 400 with no gap and a target row
  height ratio of 0.5 give four placements of 200 by 200, two in the row at \<open>y = 0\<close> and
  two in the row at \<open>y = 200\<close>.
\<close>

theorem calculateLayout_four_squares:
  "map (\<lambda>p. (uid (image p), pos_x p, pos_y p, pos_width p, pos_height p))
     (calculateLayout
        [\<lparr>uid = ''a'', aspectRatio = Fin 1\<rparr>, \<lparr>uid = ''b'', aspectRatio = Fin 1\<rparr>,
         \<lparr>uid = ''c'', aspectRatio = Fin 1\<rparr>, \<lparr>uid = ''d'', aspectRatio = Fin 1\<rparr>]
        \<lparr>canvasSize = Fin 400, gap = Fin 0, backgroundColor = ''#000000'',
         targetRowHeightRatio = Fin 0.5\<rparr>)
   = [(''a'', Fin 0, Fin 0, Fin 200, Fin 200), (''b'', Fin 200, Fin 0, Fin 200, Fin 200),
      (''c'', Fin 0, Fin 200, Fin 200, Fin 200), (''d'', Fin 200, Fin 200, Fin 200, Fin 200)]"
  by (simp add: calculateLayout_def layoutLoop_def addImage_def processRow_def placeImage_def
      totalAspect_def num_def minus_number_def Let_def)

text \<open>
  Claim C5: when the loop leaves a non-empty \<open>currentRow\<close>, that trailing row is placed
  after the rows already laid out, and each of its placements has the height
  \<open>targetRowHeight\<close> if the justified height \<open>availableWidth / totalAspectRatio\<close>
  exceeds \<open>1.5 \<times> targetRowHeight\<close>, and the justified height unchanged otherwise.
\<close>

theorem last_row_height_clamped:
  assumes "layoutLoop cfg images = (layout, currentRow, currentY)"
    and "currentRow \<noteq> []"
  shows "\<exists>rects. calculateLayout images cfg = layout @ rects
           \<and> map image rects = currentRow
           \<and> (\<forall>p \<in> set rects.
                 pos_height p =
                   (let targetRowHeight = canvasSize cfg * targetRowHeightRatio cfg;
                        rowHeight = (canvasSize cfg - num (length currentRow + 1) * gap cfg)
                                      / totalAspect currentRow
                    in if rowHeight > targetRowHeight * Fin 1.5 then targetRowHeight
                       else rowHeight))"
proof -
  let ?rh = "rowHeightOf cfg currentRow True"
  let ?rects = "rowRects cfg ?rh currentY (gap cfg) currentRow"
  have rh: "?rh = (let targetRowHeight = canvasSize cfg * targetRowHeightRatio cfg;
                       rowHeight = (canvasSize cfg - num (length currentRow + 1) * gap cfg)
                                     / totalAspect currentRow
                   in if rowHeight > targetRowHeight * Fin 1.5 then targetRowHeight
                      else rowHeight)"
    by (simp add: rowHeightOf_def Let_def)
  have "calculateLayout images cfg = layout @ ?rects"
    by (rule calculateLayout_trailing[OF assms])
  moreover have "map image ?rects = currentRow"
    by (rule rowRects_image)
  moreover have "\<forall>p \<in> set ?rects. pos_height p = ?rh"
    using rowRects_fields by blast
  ultimately show ?thesis
    by (intro exI[of _ ?rects]) (simp only: rh[symmetric] simp_thms)
qed

theorem last_row_height_clamped_witness:
  "layoutLoop \<lparr>canvasSize = Fin 400, gap = Fin 0, backgroundColor = ''#000000'',
               targetRowHeightRatio = Fin 0.5\<rparr>
     [\<lparr>uid = ''a'', aspectRatio = Fin 1\<rparr>, \<lparr>uid = ''b'', aspectRatio = Fin 1\<rparr>,
      \<lparr>uid = ''c'', aspectRatio = Fin 1\<rparr>]
     = ([\<lparr>image = \<lparr>uid = ''a'', aspectRatio = Fin 1\<rparr>, pos_x = Fin 0, pos_y = Fin 0,
          pos_width = Fin 200, pos_height = Fin 200\<rparr>,
         \<lparr>image = \<lparr>uid = ''b'', aspectRatio = Fin 1\<rparr>, pos_x = Fin 200, pos_y = Fin 0,
          pos_width = Fin 200, pos_height = Fin 200\<rparr>],
        [\<lparr>uid = ''c'', aspectRatio = Fin 1\<rparr>], Fin 200)
   \<and> (\<exists>rects.
         calculateLayout
           [\<lparr>uid = ''a'', aspectRatio = Fin 1\<rparr>, \<lparr>uid = ''b'', aspectRatio = Fin 1\<rparr>,
            \<lparr>uid = ''c'', aspectRatio = Fin 1\<rparr>]
           \<lparr>canvasSize = Fin 400, gap = Fin 0, backgroundColor = ''#000000'',
            targetRowHeightRatio = Fin 0.5\<rparr>
         = [\<lparr>image = \<lparr>uid = ''a'', aspectRatio = Fin 1\<rparr>, pos_x = Fin 0, pos_y = Fin 0,
             pos_width = Fin 200, pos_height = Fin 200\<rparr>,
            \<lparr>image = \<lparr>uid = ''b'', aspectRatio = Fin 1\<rparr>, pos_x = Fin 200, pos_y = Fin 0,
             pos_width = Fin 200, pos_height = Fin 200\<rparr>] @ rects
         \<and> map image rects = [\<lparr>uid = ''c'', aspectRatio = Fin 1\<rparr>]
         \<and> (\<forall>p \<in> set rects. pos_height p = Fin 200))"
proof -
  let ?cfg = "\<lparr>canvasSize = Fin 400, gap = Fin 0, backgroundColor = ''#000000'',
               targetRowHeightRatio = Fin 0.5\<rparr>"
  let ?c = "\<lparr>uid = ''c'', aspectRatio = Fin 1\<rparr>"
  let ?images = "[\<lparr>uid = ''a'', aspectRatio = Fin 1\<rparr>, \<lparr>uid = ''b'', aspectRatio = Fin 1\<rparr>, ?c]"
  let ?layout = "[\<lparr>image = \<lparr>uid = ''a'', aspectRatio = Fin 1\<rparr>, pos_x = Fin 0, pos_y = Fin 0,
          pos_width = Fin 200, pos_height = Fin 200\<rparr>,
         \<lparr>image = \<lparr>uid = ''b'', aspectRatio = Fin 1\<rparr>, pos_x = Fin 200, pos_y = Fin 0,
          pos_width = Fin 200, pos_height = Fin 200\<rparr>]"
  have loop: "layoutLoop ?cfg ?images = (?layout, [?c], Fin 200)"
    by (simp add: layout_defs)
  have row: "[?c] \<noteq> []"
    by simp
  from last_row_height_clamped[OF loop row] loop show ?thesis
    by (simp add: layout_defs)
qed

text \<open>
  Claim C10: when adding the final item makes \<open>widthAtTargetHeight\<close> reach
  \<open>canvasSize\<close>, the row it closes is finalized inside the loop, with the justified
  height and no clamp; the loop ends with an empty \<open>currentRow\<close>, so the result is the
  layout of the loop and no row is processed as the last row.
\<close>

theorem full_last_item_row_not_clamped:
  assumes "layoutLoop cfg images = (layout, currentRow, currentY)"
    and "canvasSize cfg * targetRowHeightRatio cfg * totalAspect (currentRow @ [img])
           + num (length (currentRow @ [img]) + 1) * gap cfg \<ge> canvasSize cfg"
  shows "\<exists>rects rowHeight.
           rowHeight = (canvasSize cfg - num (length (currentRow @ [img]) + 1) * gap cfg)
                         / totalAspect (currentRow @ [img])
           \<and> layoutLoop cfg (images @ [img])
               = (layout @ rects, [], currentY + (rowHeight + gap cfg))
           \<and> calculateLayout (images @ [img]) cfg = layout @ rects
           \<and> map image rects = currentRow @ [img]
           \<and> (\<forall>p \<in> set rects. pos_height p = rowHeight)"
proof -
  let ?row = "currentRow @ [img]"
  let ?rh = "rowHeightOf cfg ?row False"
  let ?rects = "rowRects cfg ?rh currentY (gap cfg) ?row"
  have rh: "?rh = (canvasSize cfg - num (length ?row + 1) * gap cfg) / totalAspect ?row"
    by (simp add: rowHeightOf_def)
  have loop: "layoutLoop cfg (images @ [img]) = (layout @ ?rects, [], currentY + (?rh + gap cfg))"
    using assms by (simp add: layoutLoop_snoc addImage_def Let_def processRow_eq)
  then have "calculateLayout (images @ [img]) cfg = layout @ ?rects"
    by (simp add: calculateLayout_def)
  moreover have "map image ?rects = ?row"
    by (rule rowRects_image)
  moreover have "\<forall>p \<in> set ?rects. pos_height p = ?rh"
    using rowRects_fields by blast
  ultimately show ?thesis
    using loop rh by (intro exI[of _ ?rects] exI[of _ ?rh]) simp
qed

theorem full_last_item_row_not_clamped_witness:
  "\<exists>rects.
     layoutLoop \<lparr>canvasSize = Fin 400, gap = Fin 0, backgroundColor = ''#000000'',
                 targetRowHeightRatio = Fin 0.5\<rparr>
       ([\<lparr>uid = ''a'', aspectRatio = Fin 1\<rparr>] @ [\<lparr>uid = ''b'', aspectRatio = Fin 1\<rparr>])
       = ([] @ rects, [], Fin 0 + (Fin 200 + Fin 0))
     \<and> calculateLayout
         ([\<lparr>uid = ''a'', aspectRatio = Fin 1\<rparr>] @ [\<lparr>uid = ''b'', aspectRatio = Fin 1\<rparr>])
         \<lparr>canvasSize = Fin 400, gap = Fin 0, backgroundColor = ''#000000'',
          targetRowHeightRatio = Fin 0.5\<rparr> = [] @ rects
     \<and> map image rects = [\<lparr>uid = ''a'', aspectRatio = Fin 1\<rparr>, \<lparr>uid = ''b'', aspectRatio = Fin 1\<rparr>]
     \<and> (\<forall>p \<in> set rects. pos_height p = Fin 200)"
proof -
  let ?cfg = "\<lparr>canvasSize = Fin 400, gap = Fin 0, backgroundColor = ''#000000'',
               targetRowHeightRatio = Fin 0.5\<rparr>"
  let ?a = "\<lparr>uid = ''a'', aspectRatio = Fin 1\<rparr>"
  let ?b = "\<lparr>uid = ''b'', aspectRatio = Fin 1\<rparr>"
  have loop: "layoutLoop ?cfg [?a] = ([], [?a], Fin 0)"
    by (simp add: layout_defs)
  have full: "canvasSize ?cfg * targetRowHeightRatio ?cfg * totalAspect ([?a] @ [?b])
                + num (length ([?a] @ [?b]) + 1) * gap ?cfg \<ge> canvasSize ?cfg"
    by (simp add: totalAspect_def num_def)
  from full_last_item_row_not_clamped[OF loop full] show ?thesis
    by (simp add: totalAspect_def num_def minus_number_def)
qed





























text \<open>
  The aspect ratios have to be finite as well: an item of aspect ratio \<open>Infinity\<close> (an
  image of height 0) gets the row height 0 and the width \<open>0 * Infinity\<close>, which is \<open>NaN\<close>.
\<close>

lemma calculateLayout_infinite_ratio:
  "map pos_width (calculateLayout [\<lparr>uid = ''a'', aspectRatio = PInf\<rparr>]
     \<lparr>canvasSize = Fin 100, gap = Fin 0, backgroundColor = ''#000000'',
      targetRowHeightRatio = Fin 1\<rparr>) = [NaN]
   \<and> \<not> NaN \<ge> Fin 0"
  by (simp add: calculateLayout_def layout_defs)



section \<open>Properties of binary64 rounding\<close>

lemma minNormal_pos: "0 < minNormal"
  by (simp add: minNormal_def)

lemma minNormal_le_one: "minNormal \<le> 1"
  by (simp add: minNormal_def)

lemma minNormal_scaled: "minNormal * overflowThreshold = 4" "minNormal * 2 ^ 32 \<le> 1"
  by (simp_all add: minNormal_def overflowThreshold_def)

lemma roundHalfEven_err: "\<bar>of_int (roundHalfEven t) - t\<bar> \<le> 1 / 2"
  unfolding roundHalfEven_def Let_def by (auto; linarith)

lemma roundHalfEven_int: "roundHalfEven (of_int m) = m"
  by (simp add: roundHalfEven_def)

lemma binadeBelow_range: "- 1022 \<le> binadeBelow n x \<and> binadeBelow n x \<le> int n - 1022"
  by (induction n) auto

lemma binade_range: "- 1022 \<le> binade x" "binade x \<le> 1023"
  using binadeBelow_range[of 2045 x] by (simp_all add: binade_def)

lemma binadeBelow_le:
  "2 powi (- 1022) \<le> \<bar>x\<bar> \<Longrightarrow> 2 powi (binadeBelow n x) \<le> \<bar>x\<bar>"
  by (induction n) auto

lemma binade_le: "2 powi (- 1022) \<le> \<bar>x\<bar> \<Longrightarrow> 2 powi (binade x) \<le> \<bar>x\<bar>"
  by (simp add: binade_def binadeBelow_le)

lemma binadeBelow_eq:
  assumes "2 powi k \<le> \<bar>x\<bar>" and "\<bar>x\<bar> < 2 powi (k + 1)" and "- 1022 \<le> k"
  shows "k \<le> int n - 1022 \<Longrightarrow> binadeBelow n x = k"
proof (induction n)
  case 0
  with assms(3) show ?case by simp
next
  case (Suc n)
  show ?case
  proof (cases "k = int n - 1021")
    case True
    with assms(1) show ?thesis by simp
  next
    case False
    with Suc.prems have le: "k \<le> int n - 1022" by simp
    then have "k + 1 \<le> int n - 1021" by simp
    then have "(2::real) powi (k + 1) \<le> 2 powi (int n - 1021)"
      by (intro power_int_increasing) simp_all
    with assms(2) have "\<not> 2 powi (int n - 1021) \<le> \<bar>x\<bar>" by linarith
    with Suc.IH[OF le] show ?thesis by simp
  qed
qed

lemma binade_eq:
  assumes "2 powi k \<le> \<bar>x\<bar>" and "\<bar>x\<bar> < 2 powi (k + 1)" and "- 1022 \<le> k" and "k \<le> 1023"
  shows "binade x = k"
  unfolding binade_def using assms(4) by (intro binadeBelow_eq[OF assms(1,2,3)]) simp

lemma binadeBelow_small: "\<bar>x\<bar> < 2 powi (- 1021) \<Longrightarrow> binadeBelow n x = - 1022"
proof (induction n)
  case 0
  show ?case by simp
next
  case (Suc n)
  have "(2::real) powi (- 1021) \<le> 2 powi (int n - 1021)"
    by (intro power_int_increasing) simp_all
  with Suc.prems have "\<not> 2 powi (int n - 1021) \<le> \<bar>x\<bar>" by linarith
  with Suc show ?case by simp
qed

lemma binade_small: "\<bar>x\<bar> < 2 powi (- 1021) \<Longrightarrow> binade x = - 1022"
  by (simp add: binade_def binadeBelow_small)

lemma nearest64_err: "\<bar>nearest64 x - x\<bar> \<le> 2 powi (binade x - 53)"
proof -
  define p :: real where "p = 2 powi (binade x - 52)"
  define m :: real where "m = of_int (roundHalfEven (x / p))"
  have p: "0 < p" by (simp add: p_def zero_less_power_int)
  have val: "nearest64 x = m * p"
    by (simp add: nearest64_def Let_def m_def p_def)
  have half: "p / 2 = 2 powi (binade x - 53)"
  proof -
    have "p = 2 powi (binade x - 53 + 1)" by (simp add: p_def)
    also have "\<dots> = 2 powi (binade x - 53) * 2" by (subst power_int_add_1) simp_all
    finally show ?thesis by simp
  qed
  have "(m - x / p) * p = m * p - x" using p by (simp add: field_simps)
  then have "\<bar>m * p - x\<bar> = \<bar>m - x / p\<bar> * \<bar>p\<bar>" by (simp only: abs_mult[symmetric])
  also have "\<dots> = \<bar>m - x / p\<bar> * p" using p by simp
  also have "\<dots> \<le> 1 / 2 * p"
    unfolding m_def using p by (intro mult_right_mono roundHalfEven_err) simp
  finally show ?thesis
    by (simp add: val half[symmetric])
qed

lemma nearest64_err_rel:
  "\<bar>nearest64 x - x\<bar> \<le> max \<bar>x\<bar> minNormal / 2 ^ 53"
proof -
  have shift: "(2::real) powi (k - 53) = 2 powi k / 2 ^ 53" for k
    by (simp add: power_int_diff)
  show ?thesis
  proof (cases "2 powi (- 1022) \<le> \<bar>x\<bar>")
    case True
    from binade_le[OF this] have "2 powi (binade x) / 2 ^ 53 \<le> \<bar>x\<bar> / 2 ^ 53"
      by (simp add: divide_right_mono)
    moreover have "max \<bar>x\<bar> minNormal = \<bar>x\<bar>"
      using True by (simp add: minNormal_def max_def)
    ultimately show ?thesis
      using nearest64_err[of x] by (simp only: shift)
  next
    case False
    then have "\<bar>x\<bar> < 2 powi (- 1021)" by simp
    from binade_small[OF this] have "binade x = - 1022" .
    moreover have "max \<bar>x\<bar> minNormal = minNormal"
      using False by (simp add: minNormal_def max_def)
    ultimately show ?thesis
      using nearest64_err[of x] by (simp only: shift minNormal_def)
  qed
qed

lemma nearest64_err_normal:
  assumes "minNormal \<le> \<bar>x\<bar>"
  shows "\<bar>nearest64 x - x\<bar> \<le> \<bar>x\<bar> / 2 ^ 53"
proof -
  from assms have "max \<bar>x\<bar> minNormal = \<bar>x\<bar>" by (simp add: max_def)
  with nearest64_err_rel[of x] show ?thesis by simp
qed

lemma nearest64_err_abs:
  "\<bar>nearest64 x - x\<bar> \<le> (\<bar>x\<bar> + minNormal) / 2 ^ 53"
proof -
  have "max \<bar>x\<bar> minNormal \<le> \<bar>x\<bar> + minNormal"
    using minNormal_pos by (simp add: max_def)
  then have "max \<bar>x\<bar> minNormal / 2 ^ 53 \<le> (\<bar>x\<bar> + minNormal) / 2 ^ 53"
    by (intro divide_right_mono) simp_all
  with nearest64_err_rel[of x] show ?thesis by linarith
qed

lemma sum_list_nonneg_normal:
  fixes rs :: "real list"
  shows "\<forall>r \<in> set rs. minNormal \<le> r \<Longrightarrow> 0 \<le> sum_list rs"
proof (induction rs)
  case Nil
  show ?case by simp
next
  case (Cons r rs)
  then have "0 \<le> r" "0 \<le> sum_list rs" using minNormal_pos by auto
  then show ?case by simp
qed

lemma sum64_error:
  "\<forall>r \<in> set rs. minNormal \<le> r \<Longrightarrow> 2 * real (length rs) \<le> 2 ^ 53 \<Longrightarrow>
   \<bar>sum64 0 rs - sum_list rs\<bar> \<le> 2 * real (length rs) / 2 ^ 53 * sum_list rs"
proof (induction rs rule: rev_induct)
  case Nil
  show ?case by (simp add: sum64_def)
next
  case (snoc r rs)
  define u :: real where "u = 1 / 2 ^ 53"
  define a where "a = 2 * real (length rs) * u"
  define R where "R = sum_list rs"
  define s where "s = sum64 0 rs"
  define t where "t = s + r"
  define y where "y = nearest64 t"
  have u: "0 < u" by (simp add: u_def)
  from snoc.prems have normal: "\<forall>r \<in> set rs. minNormal \<le> r" and r: "minNormal \<le> r"
    and len: "2 * real (length rs) + 2 \<le> 2 ^ 53" by simp_all
  have a: "0 \<le> a" "a \<le> 1"
  proof -
    show "0 \<le> a" using u by (simp add: a_def)
    have "2 * real (length rs) \<le> 2 ^ 53" using len by linarith
    then have "2 * real (length rs) * u \<le> 2 ^ 53 * u"
      using u by (intro mult_right_mono) simp_all
    then show "a \<le> 1" by (simp add: a_def u_def)
  qed
  have R: "0 \<le> R" unfolding R_def by (rule sum_list_nonneg_normal[OF normal])
  have "\<bar>sum64 0 rs - sum_list rs\<bar> \<le> 2 * real (length rs) / 2 ^ 53 * sum_list rs"
    using snoc.IH[OF normal] len by simp
  then have ih: "\<bar>s - R\<bar> \<le> a * R"
    by (simp add: a_def u_def R_def s_def)
  have aR: "0 \<le> a * R" "a * R \<le> R"
    using a R by (simp_all add: mult_left_le_one_le)
  have s: "0 \<le> s" using ih aR by linarith
  have m0: "0 < minNormal" by (rule minNormal_pos)
  have t: "minNormal \<le> t" "0 < t" using s r m0 by (simp_all add: t_def)
  have "\<bar>y - t\<bar> \<le> \<bar>t\<bar> / 2 ^ 53"
    unfolding y_def using t by (intro nearest64_err_normal) simp
  then have err: "\<bar>y - t\<bar> \<le> t * u"
    using t by (simp add: u_def)
  have tle: "t \<le> R + a * R + r"
    using ih unfolding t_def by linarith
  have tu: "t * u \<le> (R + a * R + r) * u"
    using tle u by (intro mult_right_mono) simp_all
  have prod: "a * R * u \<le> R * u"
    using aR(2) u by (intro mult_right_mono) simp_all
  have pos: "0 \<le> a * r" "0 \<le> r * u" "0 \<le> R * u"
    using a(1) r m0 u R by simp_all
  have "\<bar>y - (R + r)\<bar> \<le> \<bar>y - t\<bar> + \<bar>s - R\<bar>"
    by (simp add: t_def)
  also have "\<dots> \<le> (R + a * R + r) * u + a * R"
    using err tu ih by linarith
  also have "\<dots> \<le> (a + 2 * u) * (R + r)"
    using prod pos by (simp add: algebra_simps)
  finally have "\<bar>y - (R + r)\<bar> \<le> (a + 2 * u) * (R + r)" .
  moreover have "sum64 0 (rs @ [r]) = y"
    by (simp add: sum64_def y_def t_def s_def)
  moreover have "a + 2 * u = 2 * real (length (rs @ [r])) / 2 ^ 53"
    by (simp add: a_def u_def field_simps)
  moreover have "R + r = sum_list (rs @ [r])"
    by (simp add: R_def)
  ultimately show ?case by (simp only:)
qed

lemma sum64_pos:
  fixes rs :: "real list"
  assumes "rs \<noteq> []" and "real (length rs) < 2 ^ 32" and "\<forall>r \<in> set rs. minNormal \<le> r"
  shows "0 < sum64 0 rs"
proof -
  define n where "n = real (length rs)"
  define R where "R = sum_list rs"
  define B :: real where "B = 2 * n / 2 ^ 53"
  have n: "0 \<le> n" "n < 2 ^ 32" using assms(2) by (simp_all add: n_def)
  have R: "0 < R"
  proof -
    obtain r rest where rs: "rs = r # rest" using assms(1) by (cases rs) auto
    with assms(3) have "minNormal \<le> r" "\<forall>r \<in> set rest. minNormal \<le> r" by simp_all
    with sum_list_nonneg_normal[of rest] minNormal_pos show ?thesis by (simp add: R_def rs)
  qed
  have B: "0 \<le> B" "B \<le> 1 / 2" using n by (simp_all add: B_def)
  have "\<bar>sum64 0 rs - R\<bar> \<le> B * R"
    using sum64_error[OF assms(3)] n unfolding n_def R_def B_def by simp
  moreover have "B * R \<le> R / 2" using B R by (simp add: mult_right_mono)
  ultimately show ?thesis using R by linarith
qed

lemma widths_sum_error:
  fixes rs :: "real list"
  assumes "\<forall>r \<in> set rs. 0 \<le> r"
  shows "\<bar>sum_list (map (\<lambda>r. nearest64 (H * r)) rs) - H * sum_list rs\<bar>
           \<le> (\<bar>H\<bar> * sum_list rs + real (length rs) * minNormal) / 2 ^ 53"
  using assms
proof (induction rs)
  case Nil
  show ?case by simp
next
  case (Cons r rs)
  define T where "T = sum_list (map (\<lambda>r. nearest64 (H * r)) rs)"
  define R where "R = sum_list rs"
  define k where "k = real (length rs)"
  from Cons.prems have r: "0 \<le> r" and rest: "\<forall>r \<in> set rs. 0 \<le> r" by simp_all
  from Cons.IH[OF rest] have ih: "\<bar>T - H * R\<bar> \<le> (\<bar>H\<bar> * R + k * minNormal) / 2 ^ 53"
    by (simp add: T_def R_def k_def)
  have "\<bar>nearest64 (H * r) - H * r\<bar> \<le> (\<bar>H * r\<bar> + minNormal) / 2 ^ 53"
    by (rule nearest64_err_abs)
  then have w: "\<bar>nearest64 (H * r) - H * r\<bar> \<le> (\<bar>H\<bar> * r + minNormal) / 2 ^ 53"
    using r by (simp add: abs_mult)
  have "\<bar>(nearest64 (H * r) + T) - H * (r + R)\<bar>
          \<le> \<bar>nearest64 (H * r) - H * r\<bar> + \<bar>T - H * R\<bar>"
    by (simp add: algebra_simps)
  also have "\<dots> \<le> (\<bar>H\<bar> * r + minNormal) / 2 ^ 53 + (\<bar>H\<bar> * R + k * minNormal) / 2 ^ 53"
    using w ih by linarith
  also have "\<dots> = (\<bar>H\<bar> * (r + R) + (k + 1) * minNormal) / 2 ^ 53"
    by (simp add: algebra_simps add_divide_distrib)
  finally show ?case
    by (simp add: T_def R_def k_def add.commute)
qed

lemma row_width_error:
  fixes c g G W S H :: real and rs :: "real list"
  assumes "rs \<noteq> []" and "real (length rs) < 2 ^ 32" and "\<forall>r \<in> set rs. minNormal \<le> r"
    and "1 \<le> c" and "0 \<le> g"
    and "G = nearest64 ((real (length rs) + 1) * g)"
    and "W = nearest64 (c - G)"
    and "S = sum64 0 rs" and "\<bar>S\<bar> < overflowThreshold"
    and "H = nearest64 (W / S)"
  shows "\<bar>sum_list (map (\<lambda>r. nearest64 (H * r)) rs) + (real (length rs) + 1) * g - c\<bar>
           \<le> (real (length rs) + 4) * (c + (real (length rs) + 1) * g) / 2 ^ 50"
    and "\<bar>H\<bar> * sum_list rs \<le> 5 * (c + (real (length rs) + 1) * g)"
proof -
  define n where "n = real (length rs)"
  define u :: real where "u = 1 / 2 ^ 53"
  define p1 where "p1 = (n + 1) * g"
  define M where "M = c + p1"
  define MU where "MU = M * u"
  define R where "R = sum_list rs"
  define B where "B = 2 * n * u"
  define q where "q = W / S"
  define T where "T = sum_list (map (\<lambda>r. nearest64 (H * r)) rs)"
  note m0 = minNormal_pos minNormal_le_one
  have u: "0 < u" "u \<le> 1 / 1000" "2 ^ 53 * u = 1" by (simp_all add: u_def)
  have n: "1 \<le> n" "n < 2 ^ 32"
    using assms(1,2) by (cases rs; simp add: n_def)+
  have p1: "0 \<le> p1" using n assms(5) by (simp add: p1_def)
  have M: "1 \<le> M" using assms(4) p1 by (simp add: M_def)
  have MU: "0 \<le> MU" "MU * u \<le> MU" "minNormal * u \<le> MU" "u \<le> MU" "MU \<le> M / 1000"
  proof -
    show "0 \<le> MU" using M u by (simp add: MU_def)
    then show "MU * u \<le> MU" using u by (simp add: mult_left_le)
    have "minNormal * u \<le> 1 * u" using m0 u by (intro mult_right_mono) simp_all
    also have "\<dots> \<le> M * u" using M u by (intro mult_right_mono) simp_all
    finally show "minNormal * u \<le> MU" by (simp add: MU_def)
    show "u \<le> MU" using M u by (simp add: MU_def)
    have "M * u \<le> M * (1 / 1000)" using M u by (intro mult_left_mono) simp_all
    then show "MU \<le> M / 1000" by (simp add: MU_def)
  qed
  have B: "0 \<le> B" "B \<le> 1 / 2" "B * M = 2 * (n * MU)"
  proof -
    show "0 \<le> B" using n u by (simp add: B_def)
    have "2 * n * u \<le> 2 * 2 ^ 32 * u" using n u by (intro mult_right_mono) simp_all
    then show "B \<le> 1 / 2" by (simp add: B_def u_def)
    show "B * M = 2 * (n * MU)" by (simp add: B_def MU_def)
  qed
  have normal: "\<forall>r \<in> set rs. 0 \<le> r" using assms(3) m0 by force
  have R: "0 < R"
  proof -
    obtain r rest where rs: "rs = r # rest" using assms(1) by (cases rs) auto
    with assms(3) have "minNormal \<le> r" "\<forall>r \<in> set rest. minNormal \<le> r" by simp_all
    with sum_list_nonneg_normal[of rest] m0 show ?thesis by (simp add: R_def rs)
  qed
  have "\<bar>S - R\<bar> \<le> 2 * n / 2 ^ 53 * R"
    using sum64_error[OF assms(3)] n unfolding assms(8) n_def R_def by simp
  then have S: "\<bar>S - R\<bar> \<le> B * R" by (simp add: B_def u_def)
  have BR: "B * R \<le> R / 2" using B R by (simp add: mult_right_mono)
  have Spos: "0 < S" "R \<le> 2 * S" using S BR R by linarith+
  have RS: "R / S \<le> 2" "0 \<le> R / S" using Spos R by (simp_all add: field_simps)
  have m0R: "minNormal * R \<le> 8"
  proof -
    have "R \<le> 2 * overflowThreshold" using Spos assms(9) by linarith
    then have "minNormal * R \<le> minNormal * (2 * overflowThreshold)"
      using m0 by (intro mult_left_mono) simp_all
    also have "\<dots> = 2 * (minNormal * overflowThreshold)" by simp
    finally show ?thesis by (simp add: minNormal_scaled(1))
  qed
  have nm0: "n * minNormal \<le> 1"
  proof -
    have "n * minNormal \<le> 2 ^ 32 * minNormal" using n m0 by (intro mult_right_mono) simp_all
    with minNormal_scaled(2) show ?thesis by (simp add: mult.commute)
  qed
  text \<open>the gap total and the available width\<close>
  have "\<bar>G - p1\<bar> \<le> (\<bar>p1\<bar> + minNormal) / 2 ^ 53"
    unfolding assms(6) p1_def n_def by (rule nearest64_err_abs)
  then have "\<bar>G - p1\<bar> \<le> (p1 + minNormal) * u" using p1 by (simp add: u_def)
  also have "\<dots> \<le> M * u"
    using m0 assms(4) u by (intro mult_right_mono) (simp_all add: M_def)
  finally have G: "\<bar>G - p1\<bar> \<le> MU" by (simp add: MU_def)
  have cG: "\<bar>c - G\<bar> \<le> M + MU" using G p1 assms(4) unfolding M_def by linarith
  have "\<bar>W - (c - G)\<bar> \<le> (\<bar>c - G\<bar> + minNormal) / 2 ^ 53"
    unfolding assms(7) by (rule nearest64_err_abs)
  then have "\<bar>W - (c - G)\<bar> \<le> (\<bar>c - G\<bar> + minNormal) * u" by (simp add: u_def)
  also have "\<dots> \<le> (M + MU + minNormal) * u"
    using cG u by (intro mult_right_mono) simp_all
  also have "\<dots> = MU + MU * u + minNormal * u" by (simp add: MU_def algebra_simps)
  also have "\<dots> \<le> 3 * MU" using MU by linarith
  finally have W1: "\<bar>W - (c - G)\<bar> \<le> 3 * MU" .
  have WA: "\<bar>W - (c - p1)\<bar> \<le> 4 * MU" using W1 G by linarith
  have "\<bar>c - p1\<bar> \<le> M" using p1 assms(4) by (simp add: M_def)
  then have Wabs: "\<bar>W\<bar> \<le> 2 * M" using WA MU by linarith
  text \<open>the row height\<close>
  define Q where "Q = \<bar>q\<bar> * R"
  have Q: "0 \<le> Q" "Q \<le> 4 * M"
  proof -
    show "0 \<le> Q" using R by (simp add: Q_def)
    have "Q = \<bar>W\<bar> * (R / S)" using Spos by (simp add: Q_def q_def)
    also have "\<dots> \<le> \<bar>W\<bar> * 2" using RS by (intro mult_left_mono) simp_all
    finally show "Q \<le> 4 * M" using Wabs by linarith
  qed
  have "\<bar>H - q\<bar> \<le> (\<bar>q\<bar> + minNormal) / 2 ^ 53"
    unfolding assms(10) q_def by (rule nearest64_err_abs)
  then have Hq: "\<bar>H - q\<bar> \<le> (\<bar>q\<bar> + minNormal) * u" by (simp add: u_def)
  have "\<bar>H - q\<bar> * R \<le> (\<bar>q\<bar> + minNormal) * u * R"
    using Hq R by (intro mult_right_mono) simp_all
  also have "\<dots> = (Q + minNormal * R) * u" by (simp add: Q_def algebra_simps)
  also have "\<dots> \<le> (4 * M + 8) * u"
    using Q m0R u by (intro mult_right_mono) simp_all
  also have "\<dots> \<le> 12 * MU" using M u by (simp add: MU_def algebra_simps)
  finally have HqR: "\<bar>H - q\<bar> * R \<le> 12 * MU" .
  have "\<bar>H\<bar> * R \<le> (\<bar>q\<bar> + \<bar>H - q\<bar>) * R"
    using R by (intro mult_right_mono) simp_all
  also have "\<dots> = Q + \<bar>H - q\<bar> * R" by (simp add: Q_def algebra_simps)
  finally have HR: "\<bar>H\<bar> * R \<le> 5 * M" using Q HqR MU by linarith
  text \<open>the widths\<close>
  have "\<bar>T - H * R\<bar> \<le> (\<bar>H\<bar> * R + n * minNormal) / 2 ^ 53"
    unfolding T_def R_def n_def by (rule widths_sum_error[OF normal])
  then have "\<bar>T - H * R\<bar> \<le> (\<bar>H\<bar> * R + n * minNormal) * u" by (simp add: u_def)
  also have "\<dots> \<le> (5 * M + 1) * u"
    using HR nm0 u by (intro mult_right_mono) simp_all
  also have "\<dots> \<le> 6 * MU" using M u by (simp add: MU_def algebra_simps)
  finally have T1: "\<bar>T - H * R\<bar> \<le> 6 * MU" .
  have "H * R - q * R = (H - q) * R" by (simp add: left_diff_distrib)
  then have "\<bar>H * R - q * R\<bar> = \<bar>H - q\<bar> * \<bar>R\<bar>" by (simp only: abs_mult)
  then have "\<bar>H * R - q * R\<bar> = \<bar>H - q\<bar> * R" using R by simp
  with HqR have T2: "\<bar>H * R - q * R\<bar> \<le> 12 * MU" by simp
  have "q * R - W = W * ((R - S) / S)" using Spos by (simp add: q_def field_simps)
  then have "\<bar>q * R - W\<bar> = \<bar>W\<bar> * (\<bar>R - S\<bar> / S)"
    using Spos by (simp add: abs_mult)
  also have "\<bar>R - S\<bar> / S \<le> B * (R / S)"
  proof -
    have "\<bar>R - S\<bar> \<le> B * R" using S by (simp add: abs_minus_commute)
    then have "\<bar>R - S\<bar> / S \<le> B * R / S" using Spos by (intro divide_right_mono) simp_all
    then show ?thesis by simp
  qed
  also have "B * (R / S) \<le> B * 2" using RS B by (intro mult_left_mono) simp_all
  also have "\<bar>W\<bar> * (B * 2) \<le> 2 * M * (B * 2)"
    using Wabs B by (intro mult_right_mono) simp_all
  finally have "\<bar>q * R - W\<bar> \<le> 2 * M * (B * 2)"
    using B RS by (simp add: mult_left_mono)
  also have "\<dots> = 8 * (n * MU)" using B(3) by (simp add: algebra_simps)
  finally have T3: "\<bar>q * R - W\<bar> \<le> 8 * (n * MU)" .
  have "\<bar>T + p1 - c\<bar> \<le> \<bar>T - H * R\<bar> + \<bar>H * R - q * R\<bar> + \<bar>q * R - W\<bar> + \<bar>W - (c - p1)\<bar>"
    by linarith
  also have "\<dots> \<le> 22 * MU + 8 * (n * MU)" using T1 T2 T3 WA by linarith
  also have "\<dots> \<le> 32 * MU + 8 * (n * MU)" using MU by linarith
  also have "\<dots> = (n + 4) * M / 2 ^ 50" by (simp add: MU_def u_def algebra_simps)
  finally show "\<bar>sum_list (map (\<lambda>r. nearest64 (H * r)) rs) + (real (length rs) + 1) * g - c\<bar>
           \<le> (real (length rs) + 4) * (c + (real (length rs) + 1) * g) / 2 ^ 50"
    by (simp add: T_def p1_def M_def n_def)
  from HR show "\<bar>H\<bar> * sum_list rs \<le> 5 * (c + (real (length rs) + 1) * g)"
    by (simp add: R_def M_def p1_def n_def)
qed

lemma posX_error:
  fixes ws :: "real list"
  assumes "0 \<le> g"
  shows "g + sum_list (map (\<lambda>w. \<bar>w\<bar> + g) ws) + minNormal \<le> Z \<Longrightarrow> real (length ws) < 2 ^ 32 \<Longrightarrow>
         \<bar>posX g ws - (g + sum_list (map (\<lambda>w. w + g) ws))\<bar> \<le> 3 * real (length ws) * (Z / 2 ^ 53)"
proof (induction ws rule: rev_induct)
  case Nil
  show ?case by (simp add: posX_def)
next
  case (snoc w ws)
  define u :: real where "u = 1 / 2 ^ 53"
  define k where "k = real (length ws)"
  define x where "x = posX g ws"
  define X where "X = g + sum_list (map (\<lambda>w. w + g) ws)"
  define V where "V = g + sum_list (map (\<lambda>w. \<bar>w\<bar> + g) ws)"
  define t where "t = nearest64 (w + g)"
  define x' where "x' = nearest64 (x + t)"
  define ZU where "ZU = Z * u"
  define d where "d = \<bar>x - X\<bar>"
  note m0 = minNormal_pos
  have u: "0 < u" "u \<le> 1" by (simp_all add: u_def)
  have k: "0 \<le> k" "k + 1 < 2 ^ 32" using snoc.prems(2) by (simp_all add: k_def)
  have Vnn: "0 \<le> sum_list (map (\<lambda>w. \<bar>w\<bar> + g) ws)"
    using assms by (intro sum_list_nonneg) auto
  have XV: "\<bar>X\<bar> \<le> V"
  proof -
    have "\<bar>sum_list (map (\<lambda>w. w + g) ws)\<bar> \<le> sum_list (map (\<lambda>w. \<bar>w + g\<bar>) ws)"
      using sum_list_abs[of "map (\<lambda>w. w + g) ws"] by (simp add: comp_def)
    also have "\<dots> \<le> sum_list (map (\<lambda>w. \<bar>w\<bar> + g) ws)"
      using assms by (intro sum_list_mono) auto
    finally show ?thesis using assms by (simp add: X_def V_def)
  qed
  from snoc.prems(1) have Z: "V + (\<bar>w\<bar> + g) + minNormal \<le> Z"
    by (simp add: V_def)
  then have Zprev: "g + sum_list (map (\<lambda>w. \<bar>w\<bar> + g) ws) + minNormal \<le> Z"
    using assms by (simp add: V_def)
  have Zpos: "0 \<le> Z" using Z Vnn assms m0 by (simp add: V_def)
  have ZU: "0 \<le> ZU" "ZU * u \<le> ZU" using Zpos u by (simp_all add: ZU_def mult_left_le)
  have "\<bar>posX g ws - (g + sum_list (map (\<lambda>w. w + g) ws))\<bar> \<le> 3 * real (length ws) * (Z / 2 ^ 53)"
    using snoc.IH[OF Zprev] k by (simp add: k_def)
  then have ih: "d \<le> 3 * (k * ZU)" by (simp add: d_def x_def X_def k_def ZU_def u_def)
  have d: "0 \<le> d" by (simp add: d_def)
  have "\<bar>t - (w + g)\<bar> \<le> (\<bar>w + g\<bar> + minNormal) / 2 ^ 53"
    unfolding t_def by (rule nearest64_err_abs)
  then have "\<bar>t - (w + g)\<bar> \<le> (\<bar>w + g\<bar> + minNormal) * u" by (simp add: u_def)
  also have "\<dots> \<le> Z * u"
  proof -
    have "0 \<le> V" using Vnn assms by (simp add: V_def)
    then have "\<bar>w + g\<bar> + minNormal \<le> Z" using Z assms by linarith
    then show ?thesis using u by (intro mult_right_mono) simp_all
  qed
  finally have t: "\<bar>t - (w + g)\<bar> \<le> ZU" by (simp add: ZU_def)
  have xt: "\<bar>x + t\<bar> + minNormal \<le> Z + d + ZU"
  proof -
    have "\<bar>x\<bar> \<le> V + d" using XV unfolding d_def by linarith
    moreover have "\<bar>t\<bar> \<le> \<bar>w\<bar> + g + ZU" using t assms by linarith
    ultimately show ?thesis using Z by linarith
  qed
  have "\<bar>x' - (x + t)\<bar> \<le> (\<bar>x + t\<bar> + minNormal) / 2 ^ 53"
    unfolding x'_def by (rule nearest64_err_abs)
  then have "\<bar>x' - (x + t)\<bar> \<le> (\<bar>x + t\<bar> + minNormal) * u" by (simp add: u_def)
  also have "\<dots> \<le> (Z + d + ZU) * u"
    using xt u by (intro mult_right_mono) simp_all
  also have "\<dots> = ZU + d * u + ZU * u" by (simp add: ZU_def algebra_simps)
  finally have x': "\<bar>x' - (x + t)\<bar> \<le> ZU + d * u + ZU * u" .
  have ku: "k * u \<le> 1 / 4"
  proof -
    have "k * u \<le> 2 ^ 32 * u" using k u by (intro mult_right_mono) simp_all
    then show ?thesis by (simp add: u_def)
  qed
  have du: "d * u + ZU * u \<le> ZU"
  proof -
    have "d * u \<le> 3 * (k * ZU) * u" using ih u by (intro mult_right_mono) simp_all
    also have "\<dots> = 3 * (k * u) * ZU" by (simp add: algebra_simps)
    also have "\<dots> \<le> 3 * (1 / 4) * ZU" using ku ZU by (intro mult_right_mono mult_left_mono) simp_all
    finally have 1: "d * u \<le> 3 / 4 * ZU" by simp
    have "u \<le> 1 / 4" by (simp add: u_def)
    then have "ZU * u \<le> ZU * (1 / 4)" using ZU by (intro mult_left_mono) simp_all
    with 1 show ?thesis by simp
  qed
  have "\<bar>x' - (X + (w + g))\<bar> \<le> \<bar>x' - (x + t)\<bar> + \<bar>x - X\<bar> + \<bar>t - (w + g)\<bar>" by linarith
  also have "\<dots> \<le> (ZU + d * u + ZU * u) + d + ZU" using x' t by (simp add: d_def)
  also have "\<dots> \<le> 3 * (k * ZU) + 3 * ZU" using ih du by linarith
  also have "\<dots> = 3 * real (length (ws @ [w])) * (Z / 2 ^ 53)"
    by (simp add: k_def ZU_def u_def algebra_simps)
  finally have "\<bar>x' - (X + (w + g))\<bar> \<le> 3 * real (length (ws @ [w])) * (Z / 2 ^ 53)" .
  moreover have "posX g (ws @ [w]) = x'"
    by (simp add: posX_def x'_def x_def t_def)
  moreover have "g + sum_list (map (\<lambda>w. w + g) (ws @ [w])) = X + (w + g)"
    by (simp add: X_def)
  ultimately show ?case by (simp only:)
qed

lemma abs_widths_sum:
  fixes rs :: "real list"
  assumes "\<forall>r \<in> set rs. 0 \<le> r"
  shows "sum_list (map (\<lambda>r. \<bar>nearest64 (H * r)\<bar>) rs)
           \<le> \<bar>H\<bar> * sum_list rs + (\<bar>H\<bar> * sum_list rs + real (length rs) * minNormal) / 2 ^ 53"
  using assms
proof (induction rs)
  case Nil
  show ?case by simp
next
  case (Cons r rs)
  define T where "T = sum_list (map (\<lambda>r. \<bar>nearest64 (H * r)\<bar>) rs)"
  define R where "R = sum_list rs"
  define k where "k = real (length rs)"
  from Cons.prems have r: "0 \<le> r" and rest: "\<forall>r \<in> set rs. 0 \<le> r" by simp_all
  from Cons.IH[OF rest] have ih: "T \<le> \<bar>H\<bar> * R + (\<bar>H\<bar> * R + k * minNormal) / 2 ^ 53"
    by (simp add: T_def R_def k_def)
  have "\<bar>nearest64 (H * r) - H * r\<bar> \<le> (\<bar>H * r\<bar> + minNormal) / 2 ^ 53"
    by (rule nearest64_err_abs)
  then have "\<bar>nearest64 (H * r)\<bar> \<le> \<bar>H * r\<bar> + (\<bar>H * r\<bar> + minNormal) / 2 ^ 53"
    by linarith
  then have w: "\<bar>nearest64 (H * r)\<bar> \<le> \<bar>H\<bar> * r + (\<bar>H\<bar> * r + minNormal) / 2 ^ 53"
    using r by (simp add: abs_mult)
  have "\<bar>nearest64 (H * r)\<bar> + T
          \<le> (\<bar>H\<bar> * r + (\<bar>H\<bar> * r + minNormal) / 2 ^ 53)
            + (\<bar>H\<bar> * R + (\<bar>H\<bar> * R + k * minNormal) / 2 ^ 53)"
    using w ih by linarith
  also have "\<dots> = \<bar>H\<bar> * (r + R) + (\<bar>H\<bar> * (r + R) + (k + 1) * minNormal) / 2 ^ 53"
    by (simp add: algebra_simps add_divide_distrib)
  finally show ?case
    by (simp add: T_def R_def k_def add.commute)
qed

lemma row_end_error:
  fixes c g G W S H :: real and rs :: "real list"
  assumes "rs \<noteq> []" and "real (length rs) < 2 ^ 32" and "\<forall>r \<in> set rs. minNormal \<le> r"
    and "1 \<le> c" and "0 \<le> g"
    and "G = nearest64 ((real (length rs) + 1) * g)"
    and "W = nearest64 (c - G)"
    and "S = sum64 0 rs" and "\<bar>S\<bar> < overflowThreshold"
    and "H = nearest64 (W / S)"
  shows "\<bar>posX g (map (\<lambda>r. nearest64 (H * r)) (butlast rs)) + nearest64 (H * last rs) + g - c\<bar>
           \<le> (4 * real (length rs) + 1) * (c + (real (length rs) + 1) * g) / 2 ^ 50"
proof -
  define n where "n = real (length rs)"
  define u :: real where "u = 1 / 2 ^ 53"
  define M where "M = c + (n + 1) * g"
  define MU where "MU = M * u"
  define f where "f = (\<lambda>r. nearest64 (H * r))"
  define bl where "bl = map f (butlast rs)"
  define wl where "wl = f (last rs)"
  define T where "T = sum_list (map f rs)"
  note m0 = minNormal_pos minNormal_le_one
  have u: "0 < u" "u \<le> 1 / 1000" by (simp_all add: u_def)
  have n: "1 \<le> n" "n < 2 ^ 32"
    using assms(1,2) by (cases rs; simp add: n_def)+
  have ng0: "0 \<le> (n + 1) * g" "0 \<le> n * g" using assms(5) n by simp_all
  have M: "1 \<le> M" using assms(4) ng0 by (simp add: M_def)
  have MU: "0 \<le> MU" "u \<le> MU" "MU \<le> M / 1000"
  proof -
    show "0 \<le> MU" using M u by (simp add: MU_def)
    show "u \<le> MU" using M u by (simp add: MU_def)
    have "M * u \<le> M * (1 / 1000)" using M u by (intro mult_left_mono) simp_all
    then show "MU \<le> M / 1000" by (simp add: MU_def)
  qed
  have normal: "\<forall>r \<in> set rs. 0 \<le> r" using assms(3) m0 by force
  have split: "map f rs = bl @ [wl]"
  proof -
    have "rs = butlast rs @ [last rs]" using assms(1) by simp
    then have "map f rs = map f (butlast rs @ [last rs])" by simp
    then show ?thesis by (simp add: bl_def wl_def)
  qed
  have len: "real (length bl) = n - 1"
    using assms(1) by (cases rs) (simp_all add: bl_def n_def)
  have E1: "\<bar>T + (n + 1) * g - c\<bar> \<le> (n + 4) * M / 2 ^ 50"
    and HR: "\<bar>H\<bar> * sum_list rs \<le> 5 * M"
    using row_width_error[OF assms] by (simp_all add: T_def f_def n_def M_def)
  have nm0: "n * minNormal \<le> 1"
  proof -
    have "n * minNormal \<le> 2 ^ 32 * minNormal" using n m0 by (intro mult_right_mono) simp_all
    with minNormal_scaled(2) show ?thesis by (simp add: mult.commute)
  qed
  have e50: "32 * MU + 8 * (n * MU) = (n + 4) * M / 2 ^ 50"
    "8 * MU + 32 * (n * MU) = (4 * n + 1) * M / 2 ^ 50"
    by (simp_all add: MU_def u_def algebra_simps)
  have "sum_list (map (\<lambda>r. \<bar>f r\<bar>) rs)
          \<le> \<bar>H\<bar> * sum_list rs + (\<bar>H\<bar> * sum_list rs + n * minNormal) / 2 ^ 53"
    unfolding f_def n_def by (rule abs_widths_sum[OF normal])
  also have "(\<bar>H\<bar> * sum_list rs + n * minNormal) / 2 ^ 53 = (\<bar>H\<bar> * sum_list rs + n * minNormal) * u"
    by (simp add: u_def)
  also have "\<dots> \<le> (5 * M + 1) * u"
    using HR nm0 u by (intro mult_right_mono) simp_all
  also have "\<dots> \<le> 6 * MU" using M u by (simp add: MU_def algebra_simps)
  finally have absw: "sum_list (map (\<lambda>r. \<bar>f r\<bar>) rs) \<le> 6 * M"
    using HR MU by linarith
  have "sum_list (map (\<lambda>r. \<bar>f r\<bar>) rs) = sum_list (map abs (map f rs))"
    by (simp add: comp_def)
  also have "\<dots> = sum_list (map abs bl) + \<bar>wl\<bar>" by (simp add: split)
  finally have absbl: "sum_list (map abs bl) \<le> 6 * M" using absw by linarith
  have "sum_list (map (\<lambda>w. \<bar>w\<bar> + g) bl) = sum_list (map abs bl) + real (length bl) * g"
    by (simp add: sum_list_addf sum_list_triv)
  then have gsum: "sum_list (map (\<lambda>w. \<bar>w\<bar> + g) bl) = sum_list (map abs bl) + (n - 1) * g"
    by (simp only: len)
  have ng: "n * g \<le> M" using assms(4,5) ng0 by (simp add: M_def algebra_simps)
  have Z: "g + sum_list (map (\<lambda>w. \<bar>w\<bar> + g) bl) + minNormal \<le> 8 * M"
    using gsum absbl ng m0 M by (simp add: algebra_simps) 
  have "real (length bl) < 2 ^ 32" using len n by simp
  from posX_error[OF assms(5) Z this]
  have "\<bar>posX g bl - (g + sum_list (map (\<lambda>w. w + g) bl))\<bar> \<le> 3 * (n - 1) * (8 * M / 2 ^ 53)"
    by (simp add: len)
  also have "\<dots> = 24 * ((n - 1) * MU)" by (simp add: MU_def u_def)
  finally have d: "\<bar>posX g bl - (g + sum_list (map (\<lambda>w. w + g) bl))\<bar> \<le> 24 * ((n - 1) * MU)" .
  have "sum_list (map (\<lambda>w. w + g) bl) = sum_list bl + real (length bl) * g"
    by (simp add: sum_list_addf sum_list_triv)
  then have "sum_list (map (\<lambda>w. w + g) bl) = sum_list bl + (n - 1) * g"
    by (simp only: len)
  moreover have "T = sum_list bl + wl" by (simp add: T_def split)
  ultimately have X: "g + sum_list (map (\<lambda>w. w + g) bl) + wl + g = T + (n + 1) * g"
    by (simp add: algebra_simps)
  have "\<bar>posX g bl + wl + g - c\<bar>
          \<le> \<bar>posX g bl - (g + sum_list (map (\<lambda>w. w + g) bl))\<bar> + \<bar>T + (n + 1) * g - c\<bar>"
    using X by linarith
  also have "\<dots> \<le> 24 * ((n - 1) * MU) + (32 * MU + 8 * (n * MU))" using d E1 e50(1) by linarith
  also have "\<dots> = 8 * MU + 32 * (n * MU)" by (simp add: algebra_simps)
  also have "\<dots> = (4 * n + 1) * M / 2 ^ 50" by (rule e50(2))
  finally show ?thesis
    by (simp add: bl_def wl_def f_def n_def M_def)
qed

section \<open>Properties of a finalized row in binary64\<close>

lemma toDouble_Fin: "toDouble x = Fin y \<Longrightarrow> y = nearest64 x \<and> \<bar>y\<bar> < overflowThreshold"
  by (auto simp: toDouble_def split: if_splits)

lemma toDouble_zero: "toDouble 0 = Fin 0"
proof -
  have "nearest64 0 = 0" by (simp add: nearest64_def roundHalfEven_def)
  then show ?thesis by (simp add: toDouble_def overflowThreshold_def)
qed

lemma rounded_Fin: "rounded v = Fin y \<Longrightarrow> \<exists>x. v = Fin x \<and> y = nearest64 x \<and> \<bar>y\<bar> < overflowThreshold"
  by (cases v) (auto dest: toDouble_Fin)

lemma add64_Fin:
  "add64 a b = Fin y \<Longrightarrow>
   \<exists>x1 x2. a = Fin x1 \<and> b = Fin x2 \<and> y = nearest64 (x1 + x2) \<and> \<bar>y\<bar> < overflowThreshold"
  unfolding add64_def by (cases a; cases b) (auto dest: toDouble_Fin)

lemma sub64_Fin:
  "sub64 a b = Fin y \<Longrightarrow>
   \<exists>x1 x2. a = Fin x1 \<and> b = Fin x2 \<and> y = nearest64 (x1 - x2) \<and> \<bar>y\<bar> < overflowThreshold"
  unfolding sub64_def minus_number_def by (cases a; cases b) (auto dest: toDouble_Fin)

lemma mul64_Fin:
  "mul64 a b = Fin y \<Longrightarrow>
   \<exists>x1 x2. a = Fin x1 \<and> b = Fin x2 \<and> y = nearest64 (x1 * x2) \<and> \<bar>y\<bar> < overflowThreshold"
  unfolding mul64_def by (cases a; cases b) (auto dest: toDouble_Fin split: if_splits)

lemma div64_Fin:
  "div64 a (Fin s) = Fin y \<Longrightarrow> s \<noteq> 0 \<Longrightarrow>
   \<exists>x. a = Fin x \<and> y = nearest64 (x / s) \<and> \<bar>y\<bar> < overflowThreshold"
  unfolding div64_def by (cases a) (auto dest: toDouble_Fin split: if_splits)

lemma normalRatio_Fin: "normalRatio img \<Longrightarrow> aspectRatio img = Fin (ratioOf img) \<and> minNormal \<le> ratioOf img"
  by (cases "aspectRatio img") (simp_all add: normalRatio_def ratioOf_def)

lemma foldl_add64_Fin:
  "list_all normalRatio row \<Longrightarrow>
   foldl (\<lambda>sum img. add64 sum (aspectRatio img)) acc row = Fin S \<Longrightarrow>
   \<exists>a. acc = Fin a \<and> S = foldl (\<lambda>s r. nearest64 (s + r)) a (map ratioOf row)
       \<and> (row \<noteq> [] \<longrightarrow> \<bar>S\<bar> < overflowThreshold)"
proof (induction row arbitrary: acc)
  case Nil
  then show ?case by simp
next
  case (Cons img row)
  from Cons.prems(1) have img: "aspectRatio img = Fin (ratioOf img)" and rest: "list_all normalRatio row"
    by (simp_all add: normalRatio_Fin)
  from Cons.prems(2) have "foldl (\<lambda>sum img. add64 sum (aspectRatio img)) (add64 acc (aspectRatio img)) row = Fin S"
    by simp
  from Cons.IH[OF rest this] obtain a' where a': "add64 acc (aspectRatio img) = Fin a'"
    "S = foldl (\<lambda>s r. nearest64 (s + r)) a' (map ratioOf row)"
    "row \<noteq> [] \<longrightarrow> \<bar>S\<bar> < overflowThreshold" by blast
  from add64_Fin[OF a'(1)] img obtain a where a: "acc = Fin a" "a' = nearest64 (a + ratioOf img)"
    "\<bar>a'\<bar> < overflowThreshold" by auto
  have "\<bar>S\<bar> < overflowThreshold"
    using a'(2,3) a(3) by (cases "row = []") simp_all
  with a a'(2) show ?case by simp
qed

lemma totalAspect64_Fin:
  assumes "list_all normalRatio row" and "row \<noteq> []" and "totalAspect64 row = Fin S"
  shows "S = sum64 0 (map ratioOf row) \<and> \<bar>S\<bar> < overflowThreshold"
proof -
  from foldl_add64_Fin[OF assms(1) assms(3)[unfolded totalAspect64_def]] assms(2)
  have "S = foldl (\<lambda>s r. nearest64 (s + r)) 0 (map ratioOf row)" "\<bar>S\<bar> < overflowThreshold"
    by auto
  then show ?thesis by (simp add: sum64_def)
qed

lemma foldl_placeImage64:
  "fst (foldl (placeImage64 cfg rh cy) (layout, cx) row) = layout @ rowRects64 cfg rh cy cx row"
  by (induction row arbitrary: layout cx) (simp_all add: placeImage64_def Let_def)

lemma processRow64_eq:
  "row \<noteq> [] \<Longrightarrow>
   fst (processRow64 cfg (layout, cy) row isLast)
     = layout @ rowRects64 cfg
         (let rowHeight0 = div64 (sub64 (canvasSize cfg) (mul64 (num (length row + 1)) (gap cfg)))
                             (totalAspect64 row)
          in if isLast \<and> rowHeight0 > mul64 (mul64 (canvasSize cfg) (targetRowHeightRatio cfg)) (Fin 1.5)
             then mul64 (canvasSize cfg) (targetRowHeightRatio cfg) else rowHeight0)
         cy (gap cfg) row"
  by (simp add: processRow64_def Let_def foldl_placeImage64)

lemma rowRects64_image: "map image (rowRects64 cfg rh cy cx row) = row"
  by (induction row arbitrary: cx) simp_all

lemma rowRects64_height: "p \<in> set (rowRects64 cfg rh cy cx row) \<Longrightarrow> pos_height p = rh"
  by (induction row arbitrary: cx) auto

lemma rowRects64_widths:
  "map pos_width (rowRects64 cfg rh cy cx row) = map (\<lambda>img. mul64 rh (aspectRatio img)) row"
  by (induction row arbitrary: cx) simp_all

lemma rowRects64_nonempty: "row \<noteq> [] \<Longrightarrow> rowRects64 cfg rh cy cx row \<noteq> []"
  by (cases row) simp_all

lemma finite_widths:
  assumes "list_all normalRatio row" and "row \<noteq> []"
    and "list_all (\<lambda>p. isFinite (pos_width p)) (rowRects64 cfg rh cy cx row)"
  shows "\<exists>H. rh = Fin H
           \<and> map pos_width (rowRects64 cfg rh cy cx row)
               = map Fin (map (\<lambda>r. nearest64 (H * r)) (map ratioOf row))"
proof -
  have fin: "isFinite (mul64 rh (aspectRatio img))" if "img \<in> set row" for img
  proof -
    have "mul64 rh (aspectRatio img) \<in> set (map pos_width (rowRects64 cfg rh cy cx row))"
      using that by (simp add: rowRects64_widths)
    with assms(3) show ?thesis by (auto simp: list_all_iff)
  qed
  obtain img where img: "img \<in> set row" using assms(2) by (cases row) auto
  from fin[OF this] obtain y where "mul64 rh (aspectRatio img) = Fin y"
    by (cases "mul64 rh (aspectRatio img)") simp_all
  from mul64_Fin[OF this] obtain H where H: "rh = Fin H" by blast
  have "mul64 rh (aspectRatio img) = Fin (nearest64 (H * ratioOf img))" if "img \<in> set row" for img
  proof -
    from fin[OF that] obtain y where y: "mul64 rh (aspectRatio img) = Fin y"
      by (cases "mul64 rh (aspectRatio img)") simp_all
    from that assms(1) have "aspectRatio img = Fin (ratioOf img)"
      by (simp add: list_all_iff normalRatio_Fin)
    with mul64_Fin[OF y] H y show ?thesis by auto
  qed
  then have "map pos_width (rowRects64 cfg rh cy cx row)
               = map Fin (map (\<lambda>r. nearest64 (H * r)) (map ratioOf row))"
    by (simp add: rowRects64_widths comp_def)
  with H show ?thesis by blast
qed

lemma last_position:
  assumes "gap cfg = Fin g"
  shows "list_all normalRatio row \<Longrightarrow> row \<noteq> [] \<Longrightarrow>
         list_all (\<lambda>p. isFinite (pos_x p)) (rowRects64 cfg (Fin H) cy (Fin x0) row) \<Longrightarrow>
         pos_x (last (rowRects64 cfg (Fin H) cy (Fin x0) row))
           = Fin (foldl (\<lambda>x w. nearest64 (x + nearest64 (w + g))) x0
                    (map (\<lambda>r. nearest64 (H * r)) (map ratioOf (butlast row))))"
proof (induction row arbitrary: x0)
  case Nil
  then show ?case by simp
next
  case (Cons img row)
  show ?case
  proof (cases "row = []")
    case True
    then show ?thesis by simp
  next
    case False
    let ?x1 = "add64 (Fin x0) (add64 (mul64 (Fin H) (aspectRatio img)) (gap cfg))"
    from Cons.prems(1) have img: "aspectRatio img = Fin (ratioOf img)" and rest: "list_all normalRatio row"
      by (simp_all add: normalRatio_Fin)
    from Cons.prems(3) have tail: "list_all (\<lambda>p. isFinite (pos_x p)) (rowRects64 cfg (Fin H) cy ?x1 row)"
      by simp
    obtain img' row' where row: "row = img' # row'" using False by (cases row) auto
    from tail have "isFinite ?x1" by (simp add: row)
    then obtain x1 where x1: "?x1 = Fin x1" by (cases ?x1) simp_all
    from add64_Fin[OF this] obtain t where t: "add64 (mul64 (Fin H) (aspectRatio img)) (gap cfg) = Fin t"
      "x1 = nearest64 (x0 + t)" by auto
    from add64_Fin[OF t(1)] assms obtain w where w: "mul64 (Fin H) (aspectRatio img) = Fin w"
      "t = nearest64 (w + g)" by auto
    from mul64_Fin[OF w(1)] img have "w = nearest64 (H * ratioOf img)" by auto
    with t(2) w(2) have step: "x1 = nearest64 (x0 + nearest64 (nearest64 (H * ratioOf img) + g))" by simp
    from tail x1 have "list_all (\<lambda>p. isFinite (pos_x p)) (rowRects64 cfg (Fin H) cy (Fin x1) row)"
      by simp
    from Cons.IH[OF rest False this] x1 False step show ?thesis
      by (simp add: rowRects64_nonempty)
  qed
qed

lemma overflowThreshold_powi: "overflowThreshold = 2 * 2 powi 1023"
  by (simp add: overflowThreshold_def)

lemma toDouble_eval:
  assumes "2 powi k \<le> \<bar>x\<bar>" and "\<bar>x\<bar> < 2 powi (k + 1)" and "- 1022 \<le> k" and "k \<le> 1022"
  shows "toDouble x = Fin (of_int (roundHalfEven (x / 2 powi (k - 52))) * 2 powi (k - 52))"
proof -
  have b: "binade x = k"
    using assms by (intro binade_eq) simp_all
  have "\<bar>nearest64 x - x\<bar> \<le> 2 powi (k - 53)"
    using nearest64_err[of x] by (simp add: b)
  moreover have "(2::real) powi (k - 53) \<le> 2 powi (k + 1)"
    by (intro power_int_increasing) simp_all
  moreover have "(2::real) powi (k + 1) \<le> 2 powi 1023"
    using assms(4) by (intro power_int_increasing) simp_all
  ultimately have "\<bar>nearest64 x\<bar> < overflowThreshold"
    using assms(2) unfolding overflowThreshold_powi by linarith
  then show ?thesis
    by (simp add: toDouble_def nearest64_def Let_def b)
qed

lemma toDouble_values:
  "toDouble 1 = Fin 1"
  "toDouble (3 / 2) = Fin (3 / 2)"
  "toDouble 30 = Fin 30"
  "toDouble 370 = Fin 370"
  "toDouble (740 / 3) = Fin (8678811781911893 / 35184372088832)"
  "toDouble (8678811781911893 / 35184372088832) = Fin (8678811781911893 / 35184372088832)"
  "toDouble (9030655502800213 / 35184372088832) = Fin (2257663875700053 / 8796093022208)"
  "toDouble (2345624805922133 / 8796093022208) = Fin (2345624805922133 / 8796093022208)"
  "toDouble (8678811781911893 / 70368744177664) = Fin (8678811781911893 / 70368744177664)"
  "toDouble (9382499223688533 / 70368744177664) = Fin (2345624805922133 / 17592186044416)"
  "toDouble (7036874417766399 / 17592186044416) = Fin (7036874417766399 / 17592186044416)"
  "toDouble (27443810229288957 / 70368744177664) = Fin (6860952557322239 / 17592186044416)"
  using toDouble_eval[of 0 1]
    toDouble_eval[of 0 "3 / 2"]
    toDouble_eval[of 4 30]
    toDouble_eval[of 8 370]
    toDouble_eval[of 7 "740 / 3"]
    toDouble_eval[of 7 "8678811781911893 / 35184372088832"]
    toDouble_eval[of 8 "9030655502800213 / 35184372088832"]
    toDouble_eval[of 8 "2345624805922133 / 8796093022208"]
    toDouble_eval[of 6 "8678811781911893 / 70368744177664"]
    toDouble_eval[of 7 "9382499223688533 / 70368744177664"]
    toDouble_eval[of 8 "7036874417766399 / 17592186044416"]
    toDouble_eval[of 8 "27443810229288957 / 70368744177664"]
  by (simp_all add: roundHalfEven_def)

lemmas row64_defs = processRow64_def placeImage64_def totalAspect64_def add64_def sub64_def
  mul64_def div64_def num_def minus_number_def Let_def

lemma minNormal_le_half: "minNormal \<le> 1 / 2"
  by (simp add: minNormal_def)

lemma row64_example:
  "fst (processRow64 \<lparr>canvasSize = Fin 400, gap = Fin 10, backgroundColor = ''#000000'',
                      targetRowHeightRatio = Fin 0.5\<rparr> ([], Fin 10)
            [\<lparr>uid = ''a'', aspectRatio = Fin 1\<rparr>, \<lparr>uid = ''b'', aspectRatio = Fin 0.5\<rparr>] False)
   = [\<lparr>image = \<lparr>uid = ''a'', aspectRatio = Fin 1\<rparr>, pos_x = Fin 10, pos_y = Fin 10,
       pos_width = Fin (8678811781911893 / 2 ^ 45), pos_height = Fin (8678811781911893 / 2 ^ 45)\<rparr>,
      \<lparr>image = \<lparr>uid = ''b'', aspectRatio = Fin 0.5\<rparr>,
       pos_x = Fin (2345624805922133 / 2 ^ 43), pos_y = Fin 10,
       pos_width = Fin (8678811781911893 / 2 ^ 46), pos_height = Fin (8678811781911893 / 2 ^ 45)\<rparr>]"
  by (simp add: row64_defs toDouble_values)

text \<open>
  Claim C4, as stated, fails: the row height is the quotient the claim gives, but a
  rounded one, and the widths are rounded products, so the row need not end at
  \<open>canvasSize\<close>. For the row of aspect ratios \<open>1\<close> and \<open>0.5\<close> on a canvas of 400 with a gap of
  10 the height is \<open>246.66666666666666\<close>, the second item is placed at
  \<open>266.66666666666663\<close> with the width \<open>123.33333333333333\<close>, and \<open>x + width + gap\<close> evaluates
  to \<open>399.99999999999994\<close>; the exact sum of the three, and that of the two widths and the
  three gaps, are below 400 as well.
\<close>

theorem processRow64_misses_canvas:
  "fst (processRow64 \<lparr>canvasSize = Fin 400, gap = Fin 10, backgroundColor = ''#000000'',
                      targetRowHeightRatio = Fin 0.5\<rparr> ([], Fin 10)
            [\<lparr>uid = ''a'', aspectRatio = Fin 1\<rparr>, \<lparr>uid = ''b'', aspectRatio = Fin 0.5\<rparr>] False)
   = [\<lparr>image = \<lparr>uid = ''a'', aspectRatio = Fin 1\<rparr>, pos_x = Fin 10, pos_y = Fin 10,
       pos_width = Fin (8678811781911893 / 2 ^ 45), pos_height = Fin (8678811781911893 / 2 ^ 45)\<rparr>,
      \<lparr>image = \<lparr>uid = ''b'', aspectRatio = Fin 0.5\<rparr>,
       pos_x = Fin (2345624805922133 / 2 ^ 43), pos_y = Fin 10,
       pos_width = Fin (8678811781911893 / 2 ^ 46), pos_height = Fin (8678811781911893 / 2 ^ 45)\<rparr>]
   \<and> add64 (add64 (Fin (2345624805922133 / 2 ^ 43)) (Fin (8678811781911893 / 2 ^ 46))) (Fin 10)
       = Fin (7036874417766399 / 2 ^ 44)
   \<and> Fin (7036874417766399 / 2 ^ 44) < Fin 400
   \<and> (2345624805922133 / 2 ^ 43 + 8678811781911893 / 2 ^ 46 + 10 :: real) < 400
   \<and> (8678811781911893 / 2 ^ 45 + 8678811781911893 / 2 ^ 46 + 3 * 10 :: real) < 400"
  by (simp only: row64_example) (simp add: add64_def toDouble_values)

text \<open>
  Claim C4, amended: a finalized row of \<open>n\<close> items that the last-row clamp does not apply
  to has the height \<open>(canvasSize - (n + 1) * gap) / totalAspectRatio\<close>, each operation
  rounded to binary64, and it fills the canvas up to rounding: for \<open>canvasSize \<ge> 1\<close>,
  \<open>gap \<ge> 0\<close> and aspect ratios that are positive normal numbers, when no operation
  overflows (the sum of the ratios and the placements are finite), the widths and the
  \<open>n + 1\<close> gaps add up to \<open>canvasSize\<close> within \<open>(n + 4) * (canvasSize + (n + 1) * gap) / 2 ^ 50\<close>,
  and the last item ends one gap before \<open>canvasSize\<close> within
  \<open>(4 * n + 1) * (canvasSize + (n + 1) * gap) / 2 ^ 50\<close>.
\<close>

theorem row_fills_canvas_up_to_rounding:
  assumes "row \<noteq> []" and "real (length row) < 2 ^ 32"
    and "canvasSize cfg = Fin c" and "1 \<le> c"
    and "gap cfg = Fin g" and "0 \<le> g"
    and "list_all normalRatio row"
    and "isFinite (totalAspect64 row)"
    and "\<not> (isLastRow
             \<and> div64 (sub64 (canvasSize cfg) (mul64 (num (length row + 1)) (gap cfg)))
                  (totalAspect64 row)
               > mul64 (mul64 (canvasSize cfg) (targetRowHeightRatio cfg)) (Fin 1.5))"
    and "fst (processRow64 cfg (layout, currentY) row isLastRow) = layout @ rects"
    and "list_all (\<lambda>p. isFinite (pos_x p) \<and> isFinite (pos_width p)) rects"
  shows "map image rects = row
         \<and> (\<forall>p \<in> set rects.
               pos_height p = div64 (sub64 (canvasSize cfg) (mul64 (num (length row + 1)) (gap cfg)))
                                (totalAspect64 row))
         \<and> (\<exists>ws. map pos_width rects = map Fin ws
                \<and> \<bar>sum_list ws + (real (length row) + 1) * g - c\<bar>
                    \<le> (real (length row) + 4) * (c + (real (length row) + 1) * g) / 2 ^ 50)
         \<and> (\<exists>x w. pos_x (last rects) = Fin x \<and> pos_width (last rects) = Fin w
                \<and> \<bar>x + w + g - c\<bar>
                    \<le> (4 * real (length row) + 1) * (c + (real (length row) + 1) * g) / 2 ^ 50)"
proof -
  let ?h0 = "div64 (sub64 (canvasSize cfg) (mul64 (num (length row + 1)) (gap cfg)))
               (totalAspect64 row)"
  define rs where "rs = map ratioOf row"
  have rects: "rects = rowRects64 cfg ?h0 currentY (gap cfg) row"
    using assms(9,10) by (auto simp: processRow64_eq[OF assms(1)] Let_def)
  have finw: "list_all (\<lambda>p. isFinite (pos_width p)) rects"
    and finx: "list_all (\<lambda>p. isFinite (pos_x p)) rects"
    using assms(11) by (simp_all add: list_all_iff)
  from finite_widths[OF assms(7,1) finw[unfolded rects]]
  obtain H where H: "?h0 = Fin H"
    and widths: "map pos_width rects = map Fin (map (\<lambda>r. nearest64 (H * r)) rs)"
    by (auto simp: rects rs_def)
  from assms(8) obtain S where S0: "totalAspect64 row = Fin S"
    by (cases "totalAspect64 row") simp_all
  from totalAspect64_Fin[OF assms(7,1) this]
  have S: "S = sum64 0 rs" "\<bar>S\<bar> < overflowThreshold" by (auto simp: rs_def)
  have rs: "rs \<noteq> []" "real (length rs) < 2 ^ 32" "\<forall>r \<in> set rs. minNormal \<le> r"
    using assms(1,2,7) by (auto simp: rs_def list_all_iff normalRatio_Fin)
  have "0 < S" unfolding S(1) by (rule sum64_pos[OF rs])
  then have "S \<noteq> 0" by simp
  from div64_Fin[OF H[unfolded S0] this]
  obtain W where W: "sub64 (canvasSize cfg) (mul64 (num (length row + 1)) (gap cfg)) = Fin W"
    "H = nearest64 (W / S)" by blast
  from sub64_Fin[OF W(1)] assms(3)
  obtain G where G: "mul64 (num (length row + 1)) (gap cfg) = Fin G" "W = nearest64 (c - G)"
    by auto
  from mul64_Fin[OF G(1)] assms(5) have G': "G = nearest64 ((real (length rs) + 1) * g)"
    by (auto simp: num_def rs_def add.commute)
  note hyps = rs assms(4,6) G' G(2) S W(2)
  have len: "length rs = length row" by (simp add: rs_def)
  have E1: "\<bar>sum_list (map (\<lambda>r. nearest64 (H * r)) rs) + (real (length row) + 1) * g - c\<bar>
              \<le> (real (length row) + 4) * (c + (real (length row) + 1) * g) / 2 ^ 50"
    using row_width_error(1)[OF hyps] by (simp only: len)
  have E2: "\<bar>posX g (map (\<lambda>r. nearest64 (H * r)) (butlast rs)) + nearest64 (H * last rs) + g - c\<bar>
              \<le> (4 * real (length row) + 1) * (c + (real (length row) + 1) * g) / 2 ^ 50"
    using row_end_error[OF hyps] by (simp only: len)
  have rects': "rects = rowRects64 cfg (Fin H) currentY (Fin g) row"
    unfolding rects H by (simp only: assms(5))
  have lastx: "pos_x (last rects) = Fin (posX g (map (\<lambda>r. nearest64 (H * r)) (butlast rs)))"
    using last_position[OF assms(5,7,1), of H currentY g] finx
    by (simp add: rects' posX_def rs_def map_butlast)
  have "rects \<noteq> []" unfolding rects by (rule rowRects64_nonempty[OF assms(1)])
  then have "pos_width (last rects) = last (map pos_width rects)" by (simp add: last_map)
  also have "\<dots> = Fin (nearest64 (H * last rs))"
    using rs(1) by (simp add: widths last_map)
  finally have lastw: "pos_width (last rects) = Fin (nearest64 (H * last rs))" .
  have "map image rects = row" unfolding rects by (rule rowRects64_image)
  moreover have "\<forall>p \<in> set rects. pos_height p = ?h0"
    unfolding rects using rowRects64_height by blast
  ultimately show ?thesis
    using widths E1 lastx lastw E2 by blast
qed

theorem row_fills_canvas_up_to_rounding_witness:
  "(\<exists>ws. map pos_width
            (fst (processRow64 \<lparr>canvasSize = Fin 400, gap = Fin 10, backgroundColor = ''#000000'',
                                targetRowHeightRatio = Fin 0.5\<rparr> ([], Fin 10)
                    [\<lparr>uid = ''a'', aspectRatio = Fin 1\<rparr>, \<lparr>uid = ''b'', aspectRatio = Fin 0.5\<rparr>]
                    False)) = map Fin ws
         \<and> \<bar>sum_list ws + 30 - 400\<bar> \<le> 6 * 430 / 2 ^ 50)
   \<and> (\<exists>x w. pos_x (last
            (fst (processRow64 \<lparr>canvasSize = Fin 400, gap = Fin 10, backgroundColor = ''#000000'',
                                targetRowHeightRatio = Fin 0.5\<rparr> ([], Fin 10)
                    [\<lparr>uid = ''a'', aspectRatio = Fin 1\<rparr>, \<lparr>uid = ''b'', aspectRatio = Fin 0.5\<rparr>]
                    False))) = Fin x
         \<and> pos_width (last
            (fst (processRow64 \<lparr>canvasSize = Fin 400, gap = Fin 10, backgroundColor = ''#000000'',
                                targetRowHeightRatio = Fin 0.5\<rparr> ([], Fin 10)
                    [\<lparr>uid = ''a'', aspectRatio = Fin 1\<rparr>, \<lparr>uid = ''b'', aspectRatio = Fin 0.5\<rparr>]
                    False))) = Fin w
         \<and> \<bar>x + w + 10 - 400\<bar> \<le> 9 * 430 / 2 ^ 50)"
proof -
  let ?cfg = "\<lparr>canvasSize = Fin 400, gap = Fin 10, backgroundColor = ''#000000'',
               targetRowHeightRatio = Fin 0.5\<rparr>"
  let ?row = "[\<lparr>uid = ''a'', aspectRatio = Fin 1\<rparr>, \<lparr>uid = ''b'', aspectRatio = Fin 0.5\<rparr>]"
  let ?rects = "fst (processRow64 ?cfg ([], Fin 10) ?row False)"
  have h1: "?row \<noteq> []" "real (length ?row) < 2 ^ 32" by simp_all
  have h2: "canvasSize ?cfg = Fin 400" "(1::real) \<le> 400" "gap ?cfg = Fin 10" "(0::real) \<le> 10"
    by simp_all
  have h3: "list_all normalRatio ?row"
    using minNormal_le_one minNormal_le_half by (simp add: normalRatio_def)
  have h4: "isFinite (totalAspect64 ?row)"
    by (simp add: totalAspect64_def add64_def toDouble_values)
  have h5: "\<not> (False
             \<and> div64 (sub64 (canvasSize ?cfg) (mul64 (num (length ?row + 1)) (gap ?cfg)))
                  (totalAspect64 ?row)
               > mul64 (mul64 (canvasSize ?cfg) (targetRowHeightRatio ?cfg)) (Fin 1.5))" by simp
  have h6: "fst (processRow64 ?cfg ([], Fin 10) ?row False) = [] @ ?rects" by simp
  have h7: "list_all (\<lambda>p. isFinite (pos_x p) \<and> isFinite (pos_width p)) ?rects"
    by (simp only: row64_example) simp
  from row_fills_canvas_up_to_rounding[OF h1 h2 h3 h4 h5 h6 h7] show ?thesis
    by simp
qed

section \<open>Properties of the linear solver and the homography\<close>

lemmas solve_defs = solve_def forwardElimination_def backSubstitution_def backStep_def
  pivotStep_def eliminateRow_def swapRows_def findPivot_def rd_def wr_def elem_def setElem_def
  minus_number_def Let_def

lemma unit_square_system:
  "foldl (addCorrespondence 0) ([[]], [])
     (zip [\<lparr>pt_x = Fin 0, pt_y = Fin 0\<rparr>, \<lparr>pt_x = Fin 1, pt_y = Fin 0\<rparr>,
           \<lparr>pt_x = Fin 1, pt_y = Fin 1\<rparr>, \<lparr>pt_x = Fin 0, pt_y = Fin 1\<rparr>]
          [\<lparr>pt_x = Fin 0, pt_y = Fin 0\<rparr>, \<lparr>pt_x = Fin 1, pt_y = Fin 0\<rparr>,
           \<lparr>pt_x = Fin 1, pt_y = Fin 1\<rparr>, \<lparr>pt_x = Fin 0, pt_y = Fin 1\<rparr>])
   = ([[Fin 0, Fin 0, Fin 1, Fin 0, Fin 1, Fin 1, Fin 0, Fin 1],
       [Fin 0, Fin 0, Fin 1, Fin 0, Fin 0, Fin 0, Fin 0, Fin 0],
       [Fin 0, Fin 0, Fin 0, Fin 0, Fin 0, Fin 1, Fin 0, Fin 0],
       [Fin 1, Fin 0, Fin 1, Fin 0, Fin 0, Fin 0, Fin (- 1), Fin 0],
       [Fin 0, Fin 0, Fin 0, Fin 1, Fin 0, Fin 1, Fin 0, Fin 0],
       [Fin 1, Fin 1, Fin 1, Fin 0, Fin 0, Fin 0, Fin (- 1), Fin (- 1)],
       [Fin 0, Fin 0, Fin 0, Fin 1, Fin 1, Fin 1, Fin (- 1), Fin (- 1)],
       [Fin 0, Fin 1, Fin 1, Fin 0, Fin 0, Fin 0, Fin 0, Fin 0],
       [Fin 0, Fin 0, Fin 0, Fin 0, Fin 1, Fin 1, Fin 0, Fin (- 1)]],
      [Suc 0, 2, 3, 4, 5, 6, 7, 8])"
  by (simp add: addCorrespondence_def alloc_def push_def Let_def cong: let_weak_cong)

lemma unit_square_eliminated:
  "forwardElimination
     [[Fin 0, Fin 0, Fin 1, Fin 0, Fin 1, Fin 1, Fin 0, Fin 1],
      [Fin 0, Fin 0, Fin 1, Fin 0, Fin 0, Fin 0, Fin 0, Fin 0],
      [Fin 0, Fin 0, Fin 0, Fin 0, Fin 0, Fin 1, Fin 0, Fin 0],
      [Fin 1, Fin 0, Fin 1, Fin 0, Fin 0, Fin 0, Fin (- 1), Fin 0],
      [Fin 0, Fin 0, Fin 0, Fin 1, Fin 0, Fin 1, Fin 0, Fin 0],
      [Fin 1, Fin 1, Fin 1, Fin 0, Fin 0, Fin 0, Fin (- 1), Fin (- 1)],
      [Fin 0, Fin 0, Fin 0, Fin 1, Fin 1, Fin 1, Fin (- 1), Fin (- 1)],
      [Fin 0, Fin 1, Fin 1, Fin 0, Fin 0, Fin 0, Fin 0, Fin 0],
      [Fin 0, Fin 0, Fin 0, Fin 0, Fin 1, Fin 1, Fin 0, Fin (- 1)]]
     [Suc 0, 2, 3, 4, 5, 6, 7, 8] 0
   = [[Fin 1, Fin 0, Fin 0, Fin 0, Fin 1, Fin 0, Fin 0, Fin 0],
      [Fin 1, Fin 0, Fin 1, Fin 0, Fin 0, Fin 0, Fin (- 1), Fin 0],
      [Fin 0, Fin 1, Fin 0, Fin 0, Fin 0, Fin 0, Fin 0, Fin (- 1)],
      [Fin 0, Fin 0, Fin 1, Fin 0, Fin 0, Fin 0, Fin 0, Fin 0],
      [Fin 0, Fin 0, Fin 0, Fin 1, Fin 0, Fin 1, Fin 0, Fin 0],
      [Fin 0, Fin 0, Fin 0, Fin 0, Fin 1, Fin 0, Fin (- 1), Fin (- 1)],
      [Fin 0, Fin 0, Fin 0, Fin 0, Fin 0, Fin 1, Fin 0, Fin 0],
      [Fin 0, Fin 0, Fin 0, Fin 0, Fin 0, Fin 0, Fin 1, Fin 0],
      [Fin 0, Fin 0, Fin 0, Fin 0, Fin 0, Fin 0, Fin 0, Fin 1]]"
  by (simp add: solve_defs upt_rec cong: let_weak_cong)

lemma unit_square_solution:
  "backSubstitution
     [[Fin 1, Fin 0, Fin 0, Fin 0, Fin 1, Fin 0, Fin 0, Fin 0],
      [Fin 1, Fin 0, Fin 1, Fin 0, Fin 0, Fin 0, Fin (- 1), Fin 0],
      [Fin 0, Fin 1, Fin 0, Fin 0, Fin 0, Fin 0, Fin 0, Fin (- 1)],
      [Fin 0, Fin 0, Fin 1, Fin 0, Fin 0, Fin 0, Fin 0, Fin 0],
      [Fin 0, Fin 0, Fin 0, Fin 1, Fin 0, Fin 1, Fin 0, Fin 0],
      [Fin 0, Fin 0, Fin 0, Fin 0, Fin 1, Fin 0, Fin (- 1), Fin (- 1)],
      [Fin 0, Fin 0, Fin 0, Fin 0, Fin 0, Fin 1, Fin 0, Fin 0],
      [Fin 0, Fin 0, Fin 0, Fin 0, Fin 0, Fin 0, Fin 1, Fin 0],
      [Fin 0, Fin 0, Fin 0, Fin 0, Fin 0, Fin 0, Fin 0, Fin 1]]
     [Suc 0, 2, 3, 4, 5, 6, 7, 8] 0
   = [Fin 1, Fin 0, Fin 0, Fin 0, Fin 1, Fin 0, Fin 0, Fin 0]"
  by (simp add: solve_defs upt_rec cong: let_weak_cong)

text \<open>
  Claim C8: for the unit square mapped to itself, \<open>getHomographyMatrix\<close> returns the
  identity: \<open>h0 = 1\<close>, \<open>h4 = 1\<close>, \<open>h8 = 1\<close> and the other coefficients \<open>0\<close>.
\<close>

theorem unit_square_identity:
  "map_sum id snd
     (getHomographyMatrix []
        [\<lparr>pt_x = Fin 0, pt_y = Fin 0\<rparr>, \<lparr>pt_x = Fin 1, pt_y = Fin 0\<rparr>,
         \<lparr>pt_x = Fin 1, pt_y = Fin 1\<rparr>, \<lparr>pt_x = Fin 0, pt_y = Fin 1\<rparr>]
        [\<lparr>pt_x = Fin 0, pt_y = Fin 0\<rparr>, \<lparr>pt_x = Fin 1, pt_y = Fin 0\<rparr>,
         \<lparr>pt_x = Fin 1, pt_y = Fin 1\<rparr>, \<lparr>pt_x = Fin 0, pt_y = Fin 1\<rparr>])
   = Inr [Fin 1, Fin 0, Fin 0, Fin 0, Fin 1, Fin 0, Fin 0, Fin 0, Fin 1]"
  unfolding getHomographyMatrix_def alloc_def
  by (simp add: unit_square_system solve_def unit_square_eliminated unit_square_solution
      del: take_Suc_Cons zip_Cons_Cons)

lemma unchangedOutside_refl: "unchangedOutside S h h"
  by (simp add: unchangedOutside_def)

lemma unchangedOutside_trans:
  "unchangedOutside S h h1 \<Longrightarrow> unchangedOutside S h1 h2 \<Longrightarrow> unchangedOutside S h h2"
  by (simp add: unchangedOutside_def)

lemma wr_unchangedOutside: "a \<in> S \<Longrightarrow> unchangedOutside S h (wr h a j v)"
  by (auto simp: unchangedOutside_def wr_def nth_list_update)

lemma wr_wr_unchangedOutside:
  "a \<in> S \<Longrightarrow> a' \<in> S \<Longrightarrow> unchangedOutside S h (wr (wr h a j v) a' j' v')"
  by (blast intro: unchangedOutside_trans wr_unchangedOutside)

lemma foldl_unchangedOutside:
  "(\<And>h x. x \<in> set xs \<Longrightarrow> unchangedOutside S h (f h x)) \<Longrightarrow> unchangedOutside S h (foldl f h xs)"
proof (induction xs arbitrary: h)
  case Nil
  show ?case by (simp add: unchangedOutside_refl)
next
  case (Cons x xs)
  have "unchangedOutside S h (f h x)" by (rule Cons.prems) simp
  moreover have "unchangedOutside S (f h x) (foldl f (f h x) xs)"
    by (rule Cons.IH) (simp add: Cons.prems)
  ultimately show ?case by (auto intro: unchangedOutside_trans)
qed

lemma findPivot_range:
  assumes "i < length A" shows "findPivot h A i < length A"
proof -
  have "snd (foldl (\<lambda>(maxEl, maxRow) k.
                   if \<bar>rd h (A ! k) i\<bar> > maxEl then (\<bar>rd h (A ! k) i\<bar>, k)
                   else (maxEl, maxRow)) (m, r) ks) < length A"
    if "r < length A" "\<forall>k \<in> set ks. k < length A" for m r ks
    using that by (induction ks arbitrary: m r) auto
  from this[of i "[i + 1 ..< length A]"] assms show ?thesis
    by (simp add: findPivot_def)
qed

lemma swapRows_unchangedOutside:
  assumes "i < length A" and "maxRow < length A"
  shows "unchangedOutside (insert b (set A)) h (swapRows h A b i maxRow)"
proof -
  let ?S = "insert b (set A)"
  have rows: "A ! maxRow \<in> ?S" "A ! i \<in> ?S" "b \<in> ?S"
    using assms by simp_all
  have "unchangedOutside ?S h (foldl (\<lambda>h k.
                  let tmp = rd h (A ! maxRow) k;
                      h' = wr h (A ! maxRow) k (rd h (A ! i) k)
                  in wr h' (A ! i) k tmp) h [i ..< length A])" (is "unchangedOutside ?S h ?h1")
    unfolding Let_def
    by (rule foldl_unchangedOutside) (rule wr_wr_unchangedOutside[OF rows(1,2)])
  moreover have "unchangedOutside ?S ?h1 (swapRows h A b i maxRow)"
    unfolding swapRows_def Let_def
    by (rule wr_wr_unchangedOutside[OF rows(3,3)])
  ultimately show ?thesis by (rule unchangedOutside_trans)
qed

lemma eliminateRow_unchangedOutside:
  assumes "k < length A"
  shows "unchangedOutside (insert b (set A)) h (eliminateRow A b i h k)"
proof -
  let ?S = "insert b (set A)"
  have rows: "A ! k \<in> ?S" "b \<in> ?S"
    using assms by simp_all
  have "unchangedOutside ?S h (foldl (\<lambda>h j.
                  if i = j then wr h (A ! k) j (Fin 0)
                  else wr h (A ! k) j (rd h (A ! k) j + c * rd h (A ! i) j))
                h [i ..< length A])" for c
    by (rule foldl_unchangedOutside) (simp add: wr_unchangedOutside[OF rows(1)])
  then show ?thesis
    unfolding eliminateRow_def Let_def
    by (blast intro: unchangedOutside_trans wr_unchangedOutside[OF rows(2)])
qed

lemma pivotStep_unchangedOutside:
  assumes "i < length A"
  shows "unchangedOutside (insert b (set A)) h (pivotStep A b h i)"
proof -
  have "unchangedOutside (insert b (set A)) h (swapRows h A b i (findPivot h A i))"
    using assms by (intro swapRows_unchangedOutside findPivot_range)
  moreover have "unchangedOutside (insert b (set A)) h1
                   (foldl (eliminateRow A b i) h1 [i + 1 ..< length A])" for h1
    by (rule foldl_unchangedOutside) (simp add: eliminateRow_unchangedOutside)
  ultimately show ?thesis
    unfolding pivotStep_def Let_def by (rule unchangedOutside_trans)
qed

lemma forwardElimination_unchangedOutside:
  "unchangedOutside (insert b (set A)) h (forwardElimination h A b)"
  unfolding forwardElimination_def
  by (rule foldl_unchangedOutside) (simp add: pivotStep_unchangedOutside)

lemma addCorrespondence_fresh:
  assumes "addCorrespondence b (h, A) sd = (h', A')"
    and "b < length h" and "\<forall>r \<in> set A. b < r \<and> r < length h"
  shows "take b h' = take b h \<and> length h < length h' \<and> (\<forall>r \<in> set A'. b < r \<and> r < length h')"
  using assms
  by (cases sd) (force simp: addCorrespondence_def alloc_def push_def Let_def)

lemma foldl_addCorrespondence_fresh:
  "foldl (addCorrespondence b) (h, A) sds = (h', A') \<Longrightarrow>
   b < length h \<Longrightarrow> \<forall>r \<in> set A. b < r \<and> r < length h \<Longrightarrow>
   take b h' = take b h \<and> b < length h' \<and> (\<forall>r \<in> set A'. b < r \<and> r < length h')"
proof (induction sds arbitrary: h A)
  case Nil
  then show ?case by auto
next
  case (Cons sd sds)
  obtain h1 A1 where step: "addCorrespondence b (h, A) sd = (h1, A1)"
    by (cases "addCorrespondence b (h, A) sd") auto
  from addCorrespondence_fresh[OF step Cons.prems(2,3)]
  have 1: "take b h1 = take b h" "length h < length h1" "\<forall>r \<in> set A1. b < r \<and> r < length h1"
    by auto
  from Cons.prems(1) step have "foldl (addCorrespondence b) (h1, A1) sds = (h', A')" by simp
  from Cons.IH[OF this] 1 Cons.prems(2) show ?case by auto
qed

lemma divide_zero_not_finite: "\<not> isFinite (v / Fin 0)"
  by (cases v) simp_all

lemma length_setElem: "i < length xs \<Longrightarrow> length (setElem xs i v) = length xs"
  by (simp add: setElem_def)

lemma nth_setElem_other: "i < length xs \<Longrightarrow> k \<noteq> i \<Longrightarrow> setElem xs i v ! k = xs ! k"
  by (simp add: setElem_def)

lemma foldl_backStep:
  "\<forall>i \<in> set is. i < length x \<Longrightarrow>
   length (foldl (backStep h A b) x is) = length x
   \<and> (\<forall>k. k \<notin> set is \<longrightarrow> foldl (backStep h A b) x is ! k = x ! k)"
proof (induction "is" arbitrary: x)
  case Nil
  show ?case by simp
next
  case (Cons i "is")
  let ?x1 = "backStep h A b x i"
  from Cons.prems have i: "i < length x" by simp
  then have len: "length ?x1 = length x"
    by (simp add: backStep_def Let_def length_setElem)
  with Cons.prems have "\<forall>j \<in> set is. j < length ?x1" by simp
  from Cons.IH[OF this] len i show ?case
    by (auto simp: backStep_def Let_def nth_setElem_other)
qed

lemma backSubstitution_length: "length (backSubstitution h A b) = length A"
  using foldl_backStep[of "rev [0 ..< length A]" "replicate (length A) (Fin 0)" h A b]
  by (simp add: backSubstitution_def)

lemma backSubstitution_last:
  assumes "0 < length A"
  shows "backSubstitution h A b ! (length A - 1)
           = (rd h b (length A - 1) - Fin 0) / rd h (A ! (length A - 1)) (length A - 1)"
proof -
  define m where "m = length A - 1"
  define x0 where "x0 = replicate (length A) (Fin 0)"
  define v where "v = (rd h b m - Fin 0) / rd h (A ! m) m"
  have n: "length A = Suc m"
    using assms by (simp add: m_def)
  have len0: "length x0 = Suc m"
    by (simp add: x0_def n)
  have x1: "backStep h A b x0 m = x0[m := v]"
    by (simp add: backStep_def Let_def setElem_def n len0 v_def)
  have "\<forall>i \<in> set (rev [0 ..< m]). i < length (x0[m := v])"
    by (simp add: len0)
  from foldl_backStep[OF this, of h A b]
  have "foldl (backStep h A b) (x0[m := v]) (rev [0 ..< m]) ! m = x0[m := v] ! m"
    by simp
  then have "foldl (backStep h A b) x0 (rev [0 ..< Suc m]) ! m = v"
    by (simp add: x1 len0)
  then show ?thesis
    by (simp only: backSubstitution_def n[symmetric] x0_def[symmetric]) (simp only: m_def v_def)
qed

text \<open>
  A zero pivot. When the pivot selected in column \<open>i\<close> is zero, the whole column is zero
  from the diagonal down, no swap happens, every factor \<open>c\<close> is \<open>-0 / 0 = NaN\<close>, and the
  elimination fills the rows below with \<open>NaN\<close>; the later iterations keep them so, and
  the back substitution starts from a division by \<open>NaN\<close>, or by the zero pivot itself
  when \<open>i\<close> is the last column.
\<close>

lemma elem_setElem:
  "elem (setElem xs j v) j' = (if j' = j then v else elem xs j')"
  by (auto simp: elem_def setElem_def nth_append)

lemma rd_wr:
  "rd (wr h a j v) a' j' = (if a < length h \<and> a' = a \<and> j' = j then v else rd h a' j')"
  by (auto simp: rd_def wr_def elem_setElem nth_list_update)

lemma length_wr: "length (wr h a j v) = length h"
  by (simp add: wr_def)

lemma foldl_preserves:
  assumes "\<And>h x. x \<in> set xs \<Longrightarrow> P h \<Longrightarrow> P (f h x)" and "P h"
  shows "P (foldl f h xs)"
  using assms by (induction xs arbitrary: h) simp_all

lemma nan_arith:
  "v / NaN = NaN" "x + NaN * y = NaN" "- v / NaN = NaN" "NaN - v = NaN"
  by (cases v; cases x; cases y; simp add: minus_number_def)+

lemma abs_NaN: "\<bar>NaN\<bar> = NaN" "\<not> v > NaN" "\<not> NaN > v"
  by (cases v; simp)+

lemma wr_nanBlock:
  "nanBlock A b m h \<Longrightarrow> v = NaN \<or> j < m \<Longrightarrow> nanBlock A b m (wr h a j v)"
  by (auto simp: nanBlock_def rd_wr)

lemma nanBlock_mono: "nanBlock A b m h \<Longrightarrow> m \<le> m' \<Longrightarrow> nanBlock A b m' h"
  by (auto simp: nanBlock_def)

lemma findPivot_lower:
  "i \<le> findPivot h A i"
proof -
  have "i \<le> snd (foldl (\<lambda>(maxEl, maxRow) k.
                   if \<bar>rd h (A ! k) i\<bar> > maxEl then (\<bar>rd h (A ! k) i\<bar>, k)
                   else (maxEl, maxRow)) (m, r) ks)"
    if "i \<le> r" "\<forall>k \<in> set ks. i \<le> k" for m r ks
    using that by (induction ks arbitrary: m r) auto
  from this[of i "[i + 1 ..< length A]"] show ?thesis
    by (simp add: findPivot_def)
qed

lemma swapRows_nanBlock:
  assumes "nanBlock A b i h" and "i < length A" and "i \<le> mr" and "mr < length A"
  shows "nanBlock A b i (swapRows h A b i mr)"
proof -
  let ?body = "\<lambda>h k. let tmp = rd h (A ! mr) k;
                          h' = wr h (A ! mr) k (rd h (A ! i) k)
                      in wr h' (A ! i) k tmp"
  have "nanBlock A b i (foldl ?body h [i ..< length A])" (is "nanBlock A b i ?h1")
  proof (rule foldl_preserves[where P = "nanBlock A b i"])
    fix h' k assume k: "k \<in> set [i ..< length A]" and nb: "nanBlock A b i h'"
    then have "rd h' (A ! mr) k = NaN" "rd h' (A ! i) k = NaN"
      using assms(2,3,4) by (auto simp: nanBlock_def)
    then show "nanBlock A b i (?body h' k)"
      using nb by (simp add: Let_def wr_nanBlock)
  qed (rule assms(1))
  moreover from this have "rd ?h1 b mr = NaN" "rd ?h1 b i = NaN"
    using assms(2,3,4) by (auto simp: nanBlock_def)
  ultimately show ?thesis
    by (simp add: swapRows_def Let_def wr_nanBlock)
qed

lemma eliminateRow_nanBlock:
  assumes "distinct A" and "b \<notin> set A" and "i < k" and "k < length A"
    and "nanBlock A b (i + 1) h" and "rd h (A ! i) i = NaN"
  shows "nanBlock A b (i + 1) (eliminateRow A b i h k) \<and> rd (eliminateRow A b i h k) (A ! i) i = NaN"
proof -
  define P where "P = (\<lambda>h. nanBlock A b (i + 1) h \<and> rd h (A ! i) i = NaN)"
  have ne: "A ! k \<noteq> A ! i" "b \<noteq> A ! i"
    using assms(1,2,3,4) by (auto simp: nth_eq_iff_index_eq)
  let ?body = "\<lambda>h j. if i = j then wr h (A ! k) j (Fin 0)
                     else wr h (A ! k) j (rd h (A ! k) j + NaN * rd h (A ! i) j)"
  let ?h1 = "foldl ?body h [i ..< length A]"
  have rows: "P ?h1"
  proof (rule foldl_preserves[where P = P])
    fix h' j assume "j \<in> set [i ..< length A]" and "P h'"
    then show "P (?body h' j)"
      using ne by (auto simp: P_def wr_nanBlock rd_wr nan_arith)
  qed (use assms(5,6) in \<open>simp add: P_def\<close>)
  have c: "- rd h (A ! k) i / rd h (A ! i) i = NaN"
    by (simp add: assms(6) nan_arith)
  have "eliminateRow A b i h k = wr ?h1 b k (rd ?h1 b k + NaN * rd ?h1 b i)"
    by (simp add: eliminateRow_def Let_def c)
  with rows ne show ?thesis
    by (simp add: P_def wr_nanBlock rd_wr nan_arith)
qed

lemma pivotStep_nanBlock:
  assumes "distinct A" and "b \<notin> set A" and "i < length A" and "nanBlock A b i h"
  shows "nanBlock A b (min (i + 1) (length A - 1)) (pivotStep A b h i)"
proof -
  let ?hs = "swapRows h A b i (findPivot h A i)"
  have hs: "nanBlock A b i ?hs"
    using assms(3,4) by (intro swapRows_nanBlock findPivot_lower findPivot_range)
  show ?thesis
  proof (cases "i + 1 < length A")
    case False
    with assms(3) have "[i + 1 ..< length A] = []" "min (i + 1) (length A - 1) = i" by simp_all
    with hs show ?thesis by (simp add: pivotStep_def Let_def)
  next
    case True
    define P where "P = (\<lambda>h. nanBlock A b (i + 1) h \<and> rd h (A ! i) i = NaN)"
    have "P ?hs"
      using hs assms(3) by (auto simp: P_def nanBlock_def)
    then have "P (foldl (eliminateRow A b i) ?hs [i + 1 ..< length A])"
    proof (rule foldl_preserves[where P = P, rotated])
      fix h' k assume "k \<in> set [i + 1 ..< length A]" and "P h'"
      then show "P (eliminateRow A b i h' k)"
        using eliminateRow_nanBlock[OF assms(1,2), of i k h'] by (simp add: P_def)
    qed
    moreover from True have "min (i + 1) (length A - 1) = i + 1" by simp
    ultimately show ?thesis by (simp add: P_def pivotStep_def Let_def)
  qed
qed

lemma steps_nanBlock:
  assumes "distinct A" and "b \<notin> set A"
  shows "m < length A \<Longrightarrow> nanBlock A b m h \<Longrightarrow>
         nanBlock A b (length A - 1) (foldl (pivotStep A b) h [m ..< length A])"
proof (induction "length A - m" arbitrary: m h)
  case 0
  then show ?case by simp
next
  case (Suc d)
  from Suc.prems(1) have split: "[m ..< length A] = m # [m + 1 ..< length A]"
    by (simp add: upt_rec)
  let ?h1 = "pivotStep A b h m"
  have nb1: "nanBlock A b (min (m + 1) (length A - 1)) ?h1"
    by (rule pivotStep_nanBlock[OF assms Suc.prems])
  show ?case
  proof (cases "m + 1 < length A")
    case True
    then have "min (m + 1) (length A - 1) = m + 1" by simp
    with nb1 have "nanBlock A b (m + 1) ?h1" by simp
    moreover have "d = length A - (m + 1)" using Suc.hyps(2) by simp
    ultimately have "nanBlock A b (length A - 1) (foldl (pivotStep A b) ?h1 [m + 1 ..< length A])"
      using True by (intro Suc.hyps(1)) simp_all
    then show ?thesis by (simp add: split)
  next
    case False
    with Suc.prems(1) have "min (m + 1) (length A - 1) = length A - 1"
      and "[m + 1 ..< length A] = []" by simp_all
    with nb1 show ?thesis by (simp only: split foldl_Cons foldl_Nil)
  qed
qed

lemma greater_abs_positive: "x > \<bar>y\<bar> \<Longrightarrow> x > Fin 0"
  by (cases x; cases y) auto

lemma zero_over_zero: "\<not> \<bar>v\<bar> > Fin 0 \<Longrightarrow> - v / Fin 0 = NaN"
  by (cases v) auto

lemma foldl_pivot_positive:
  assumes "m = \<bar>rd h (A ! r) i\<bar>" and "Fin 0 < m"
  shows "case foldl (\<lambda>(maxEl, maxRow) k.
                   if \<bar>rd h (A ! k) i\<bar> > maxEl then (\<bar>rd h (A ! k) i\<bar>, k)
                   else (maxEl, maxRow)) (m, r) ks of
           (m', r') \<Rightarrow> m' = \<bar>rd h (A ! r') i\<bar> \<and> Fin 0 < m'"
  using assms
proof (induction ks arbitrary: m r)
  case Nil
  then show ?case by simp
next
  case (Cons k ks)
  show ?case
  proof (cases "\<bar>rd h (A ! k) i\<bar> > m")
    case True
    then have "Fin 0 < \<bar>rd h (A ! k) i\<bar>"
      using Cons.prems(1) greater_abs_positive by blast
    from Cons.IH[OF refl this] True show ?thesis by simp
  next
    case False
    with Cons.IH[OF Cons.prems] show ?thesis by simp
  qed
qed

lemma foldl_pivot_search:
  assumes "m = \<bar>rd h (A ! r) i\<bar>"
    and "(r = i \<and> (\<forall>k \<in> D. \<not> \<bar>rd h (A ! k) i\<bar> > m)) \<or> Fin 0 < m"
  shows "case foldl (\<lambda>(maxEl, maxRow) k.
                   if \<bar>rd h (A ! k) i\<bar> > maxEl then (\<bar>rd h (A ! k) i\<bar>, k)
                   else (maxEl, maxRow)) (m, r) ks of
           (m', r') \<Rightarrow> m' = \<bar>rd h (A ! r') i\<bar>
             \<and> ((r' = i \<and> (\<forall>k \<in> D \<union> set ks. \<not> \<bar>rd h (A ! k) i\<bar> > m')) \<or> Fin 0 < m')"
  using assms
proof (induction ks arbitrary: m r D)
  case Nil
  then show ?case by simp
next
  case (Cons k ks)
  show ?case
  proof (cases "\<bar>rd h (A ! k) i\<bar> > m")
    case True
    then have "Fin 0 < \<bar>rd h (A ! k) i\<bar>"
      using Cons.prems(1) greater_abs_positive by blast
    from foldl_pivot_positive[OF refl this, of ks] True show ?thesis
      by (auto split: prod.splits)
  next
    case False
    with Cons.prems have "(r = i \<and> (\<forall>k' \<in> insert k D. \<not> \<bar>rd h (A ! k') i\<bar> > m)) \<or> Fin 0 < m"
      by auto
    from Cons.IH[OF Cons.prems(1) this] False show ?thesis
      by simp
  qed
qed

lemma findPivot_zero:
  assumes "rd h (A ! findPivot h A i) i = Fin 0"
  shows "findPivot h A i = i"
    and "\<forall>k. i < k \<and> k < length A \<longrightarrow> \<not> \<bar>rd h (A ! k) i\<bar> > Fin 0"
proof -
  let ?g = "\<lambda>(maxEl, maxRow) k.
                   if \<bar>rd h (A ! k) i\<bar> > maxEl then (\<bar>rd h (A ! k) i\<bar>, k)
                   else (maxEl, maxRow)"
  obtain m' r' where res: "foldl ?g (\<bar>rd h (A ! i) i\<bar>, i) [i + 1 ..< length A] = (m', r')"
    by (cases "foldl ?g (\<bar>rd h (A ! i) i\<bar>, i) [i + 1 ..< length A]") auto
  then have r': "findPivot h A i = r'"
    by (simp add: findPivot_def)
  have "case foldl ?g (\<bar>rd h (A ! i) i\<bar>, i) [i + 1 ..< length A] of
           (m', r') \<Rightarrow> m' = \<bar>rd h (A ! r') i\<bar>
             \<and> ((r' = i \<and> (\<forall>k \<in> {} \<union> set [i + 1 ..< length A]. \<not> \<bar>rd h (A ! k) i\<bar> > m'))
                  \<or> Fin 0 < m')"
    by (rule foldl_pivot_search) simp_all
  then have inv: "m' = \<bar>rd h (A ! r') i\<bar>
    \<and> ((r' = i \<and> (\<forall>k \<in> {} \<union> set [i + 1 ..< length A]. \<not> \<bar>rd h (A ! k) i\<bar> > m')) \<or> Fin 0 < m')"
    unfolding res prod.case .
  from assms r' inv have m': "m' = Fin 0" by simp
  with inv have "r' = i \<and> (\<forall>k \<in> set [i + 1 ..< length A]. \<not> \<bar>rd h (A ! k) i\<bar> > Fin 0)"
    by auto
  with r' show "findPivot h A i = i"
    and "\<forall>k. i < k \<and> k < length A \<longrightarrow> \<not> \<bar>rd h (A ! k) i\<bar> > Fin 0"
    by auto
qed

lemma swapRows_self_reads: "rd (swapRows h A b i i) a j = rd h a j"
proof -
  define P where "P = (\<lambda>h'. \<forall>a j. rd h' a j = rd h a j)"
  let ?body = "\<lambda>h k. let tmp = rd h (A ! i) k;
                          h' = wr h (A ! i) k (rd h (A ! i) k)
                      in wr h' (A ! i) k tmp"
  let ?h1 = "foldl ?body h [i ..< length A]"
  have "P ?h1"
  proof (rule foldl_preserves[where P = P])
    fix h' k assume "P h'"
    then show "P (?body h' k)"
      by (auto simp: P_def Let_def rd_wr)
  qed (simp add: P_def)
  then have "P (swapRows h A b i i)"
    by (auto simp: P_def swapRows_def Let_def rd_wr)
  then show ?thesis by (simp add: P_def)
qed

lemma swapRows_pivot_cell:
  assumes "distinct A" and "b \<notin> set A" and "i < length A" and "A ! i < length h"
  shows "rd (swapRows h A b i mr) (A ! i) i = rd h (A ! mr) i"
proof -
  define P where "P = (\<lambda>h'. rd h' (A ! i) i = rd h (A ! mr) i)"
  let ?body = "\<lambda>h k. let tmp = rd h (A ! mr) k;
                          h' = wr h (A ! mr) k (rd h (A ! i) k)
                      in wr h' (A ! i) k tmp"
  have split: "[i ..< length A] = i # [i + 1 ..< length A]"
    using assms(3) by (simp add: upt_rec)
  have first: "P (?body h i)"
    using assms(4) by (simp add: P_def Let_def rd_wr length_wr)
  have "P (foldl ?body (?body h i) [i + 1 ..< length A])"
  proof (rule foldl_preserves[where P = P])
    fix h' k assume "k \<in> set [i + 1 ..< length A]" and "P h'"
    then show "P (?body h' k)"
      by (auto simp: P_def Let_def rd_wr)
  qed (rule first)
  then have "P (foldl ?body h [i ..< length A])"
    by (simp only: split foldl_Cons)
  moreover have "b \<noteq> A ! i"
    using assms(2,3) by auto
  ultimately have "P (swapRows h A b i mr)"
    by (simp add: P_def swapRows_def Let_def rd_wr)
  then show ?thesis by (simp add: P_def)
qed

lemma length_swapRows: "length (swapRows h A b i mr) = length h"
proof -
  have "length (foldl f h xs) = length h" if "\<And>h x. length (f h x) = length h"
    for f :: "heap \<Rightarrow> nat \<Rightarrow> heap" and xs
    using that by (induction xs arbitrary: h) simp_all
  then show ?thesis
    by (simp add: swapRows_def Let_def length_wr)
qed

lemma rd_invalid: "\<not> a < length h \<Longrightarrow> rd h a j = NaN"
  by (simp add: rd_def)

lemma rd_foldl_wr:
  "rd (foldl (\<lambda>h j. wr h a j (F j)) h js) a' j'
     = (if a < length h \<and> a' = a \<and> j' \<in> set js then F j' else rd h a' j')"
  by (induction js arbitrary: h) (auto simp: rd_wr length_wr)

lemma length_foldl_wr: "length (foldl (\<lambda>h j. wr h a j (F j)) h js) = length h"
  by (induction js arbitrary: h) (simp_all add: length_wr)

lemma eliminateRow_zero_pivot:
  assumes "rd h (A ! i) i = Fin 0" and "\<not> \<bar>rd h (A ! k) i\<bar> > Fin 0"
  shows "eliminateRow A b i h k
           = wr (foldl (\<lambda>h j. wr h (A ! k) j (if i = j then Fin 0 else NaN)) h [i ..< length A])
               b k NaN"
proof -
  have c: "- rd h (A ! k) i / rd h (A ! i) i = NaN"
    using assms by (simp add: zero_over_zero)
  have body: "(\<lambda>h j. if i = j then wr h (A ! k) j (Fin 0)
                     else wr h (A ! k) j (rd h (A ! k) j + NaN * rd h (A ! i) j))
              = (\<lambda>h j. wr h (A ! k) j (if i = j then Fin 0 else NaN))"
    by (intro ext) (simp add: nan_arith)
  show ?thesis
    by (simp add: eliminateRow_def Let_def c body nan_arith)
qed

lemma eliminateRow_zeroColumn:
  assumes "distinct A" and "b \<notin> set A" and "i < k" and "k < length A"
    and "zeroColumn A b i D h"
  shows "zeroColumn A b i (insert k D) (eliminateRow A b i h k)"
proof -
  from assms(5) have pivot: "rd h (A ! i) i = Fin 0"
    and col: "\<forall>k. i < k \<and> k < length A \<longrightarrow> \<not> \<bar>rd h (A ! k) i\<bar> > Fin 0"
    and processed: "\<forall>k \<in> D. (\<forall>j. i < j \<and> j < length A \<longrightarrow> rd h (A ! k) j = NaN) \<and> rd h b k = NaN"
    by (simp_all add: zeroColumn_def)
  have ne: "A ! k \<noteq> A ! i" "b \<noteq> A ! i" "b \<noteq> A ! k"
    using assms(1,2,3,4) by (auto simp: nth_eq_iff_index_eq)
  have other: "A ! k' = A ! k \<longleftrightarrow> k' = k" "b \<noteq> A ! k'" if "k' < length A" for k'
    using that assms(1,2,4) by (auto simp: nth_eq_iff_index_eq)
  have reads: "rd (eliminateRow A b i h k) a j
      = (if b < length h \<and> a = b \<and> j = k then NaN
         else if A ! k < length h \<and> a = A ! k \<and> i \<le> j \<and> j < length A
              then (if i = j then Fin 0 else NaN)
              else rd h a j)" for a j
    using col assms(3,4)
    by (simp add: eliminateRow_zero_pivot[OF pivot] rd_wr rd_foldl_wr length_foldl_wr)
  show ?thesis
    unfolding zeroColumn_def
  proof (intro conjI allI impI ballI)
    show "rd (eliminateRow A b i h k) (A ! i) i = Fin 0"
      using ne pivot by (simp add: reads)
  next
    fix k' assume "i < k' \<and> k' < length A"
    then show "\<not> \<bar>rd (eliminateRow A b i h k) (A ! k') i\<bar> > Fin 0"
      using col other[of k'] by (auto simp: reads)
  next
    fix k' j assume "k' \<in> insert k D" and j: "i < j \<and> j < length A"
    then show "rd (eliminateRow A b i h k) (A ! k') j = NaN"
      using processed ne by (cases "A ! k < length h") (auto simp: reads rd_invalid)
  next
    fix k' assume "k' \<in> insert k D"
    then show "rd (eliminateRow A b i h k) b k' = NaN"
      using processed ne by (cases "b < length h") (auto simp: reads rd_invalid)
  qed
qed

lemma foldl_eliminateRow_zeroColumn:
  assumes "distinct A" and "b \<notin> set A"
  shows "\<forall>k \<in> set ks. i < k \<and> k < length A \<Longrightarrow> zeroColumn A b i D h \<Longrightarrow>
         zeroColumn A b i (D \<union> set ks) (foldl (eliminateRow A b i) h ks)"
proof (induction ks arbitrary: D h)
  case Nil
  then show ?case by simp
next
  case (Cons k ks)
  from Cons.prems have "zeroColumn A b i (insert k D) (eliminateRow A b i h k)"
    by (intro eliminateRow_zeroColumn[OF assms]) simp_all
  from Cons.IH[OF _ this] Cons.prems(1) show ?case by simp
qed

lemma zeroColumn_nanBlock:
  "zeroColumn A b i (set [i + 1 ..< length A]) h \<Longrightarrow> nanBlock A b (i + 1) h"
  by (auto simp: zeroColumn_def nanBlock_def)

lemma zero_pivot_last_component:
  assumes "distinct A" and "b \<notin> set A" and "i < length A" and "selectedPivot h A b i = Fin 0"
  shows "\<not> isFinite (snd (solve h A b) ! (length A - 1))"
proof -
  define hi where "hi = foldl (pivotStep A b) h [0 ..< i]"
  define hs where "hs = swapRows hi A b i (findPivot hi A i)"
  define he where "he = foldl (eliminateRow A b i) hs [i + 1 ..< length A]"
  define hf where "hf = forwardElimination h A b"
  have pivot: "rd hs (A ! i) i = Fin 0"
    using assms(4) by (simp add: selectedPivot_def Let_def hi_def hs_def)
  then have "A ! i < length hs"
    by (auto simp: rd_def split: if_splits)
  then have valid: "A ! i < length hi"
    by (simp add: hs_def length_swapRows)
  from swapRows_pivot_cell[OF assms(1,2,3) valid, of "findPivot hi A i"] pivot
  have "rd hi (A ! findPivot hi A i) i = Fin 0"
    by (simp add: hs_def)
  from findPivot_zero[OF this]
  have self: "findPivot hi A i = i"
    and col: "\<forall>k. i < k \<and> k < length A \<longrightarrow> \<not> \<bar>rd hi (A ! k) i\<bar> > Fin 0"
    by simp_all
  have same: "rd hs a j = rd hi a j" for a j
    by (simp add: hs_def self swapRows_self_reads)
  have start: "zeroColumn A b i {} hs"
    using pivot col by (simp add: zeroColumn_def same)
  have upt: "[0 ..< length A] = [0 ..< i] @ i # [i + 1 ..< length A]"
  proof -
    have "[0 ..< i + (length A - i)] = [0 ..< i] @ [i ..< i + (length A - i)]"
      by (rule upt_add_eq_append) simp
    moreover have "[i ..< length A] = i # [i + 1 ..< length A]"
      using assms(3) by (simp add: upt_conv_Cons)
    ultimately show ?thesis
      using assms(3) by simp
  qed
  have hf: "hf = foldl (pivotStep A b) he [i + 1 ..< length A]"
    by (simp add: hf_def forwardElimination_def upt pivotStep_def Let_def hi_def hs_def he_def)
  have result: "snd (solve h A b) ! (length A - 1)
                  = (rd hf b (length A - 1) - Fin 0) / rd hf (A ! (length A - 1)) (length A - 1)"
  proof -
    have "0 < length A" using assms(3) by (cases A) simp_all
    from backSubstitution_last[OF this, of hf b] show ?thesis
      by (simp add: solve_def Let_def hf_def)
  qed
  show ?thesis
  proof (cases "i + 1 < length A")
    case False
    with assms(3) have last: "i = length A - 1" and "[i + 1 ..< length A] = []" by simp_all
    then have "hf = hs" by (simp add: hf he_def)
    with pivot last have "rd hf (A ! (length A - 1)) (length A - 1) = Fin 0" by simp
    then show ?thesis
      by (simp only: result divide_zero_not_finite not_False_eq_True)
  next
    case True
    have "zeroColumn A b i ({} \<union> set [i + 1 ..< length A]) he"
      unfolding he_def by (rule foldl_eliminateRow_zeroColumn[OF assms(1,2) _ start]) simp
    then have "nanBlock A b (i + 1) he"
      using zeroColumn_nanBlock[of A b i he] by simp
    from steps_nanBlock[OF assms(1,2) True this] have "nanBlock A b (length A - 1) hf"
      by (simp add: hf)
    then have "rd hf (A ! (length A - 1)) (length A - 1) = NaN"
      using assms(3) by (auto simp: nanBlock_def)
    then have "snd (solve h A b) ! (length A - 1) = NaN"
      by (simp only: result nan_arith)
    then show ?thesis
      by (simp only: isFinite.simps not_False_eq_True)
  qed
qed

text \<open>
  Claim C1, as stated, fails: for the system with the rows \<open>[1, 1]\<close> and \<open>[0, 0]\<close> and
  \<open>b = [1, 1]\<close> the pivot selected in the last column is zero, and \<open>solve\<close> returns the
  vector \<open>[-Infinity, Infinity]\<close>. The source has no pivot check and no \<open>throw\<close>.
\<close>

theorem solve_zero_row_counterexample:
  "solve [[Fin 1, Fin 1], [Fin 0, Fin 0], [Fin 1, Fin 1]] [0, 1] 2
   = ([[Fin 1, Fin 1], [Fin 0, Fin 0], [Fin 1, Fin 1]], [NInf, PInf])"
  by (simp add: solve_defs upt_rec cong: let_weak_cong)

text \<open>
  Claim C1, amended: \<open>solve\<close> surfaces no error. For every system it returns a vector of
  length \<open>n\<close>; and whenever the pivot selected in some column \<open>i\<close> is zero (the rows being
  distinct arrays, none of them \<open>b\<close>), the last component of that vector is \<open>Infinity\<close>,
  \<open>-Infinity\<close> or \<open>NaN\<close>.
\<close>

theorem solve_returns_without_pivot_check:
  "length (snd (solve h A b)) = length A
   \<and> (distinct A \<and> b \<notin> set A \<and> i < length A \<and> selectedPivot h A b i = Fin 0
        \<longrightarrow> \<not> isFinite (snd (solve h A b) ! (length A - 1)))"
proof (intro conjI impI)
  show "length (snd (solve h A b)) = length A"
    by (simp add: solve_def Let_def backSubstitution_length)
next
  assume "distinct A \<and> b \<notin> set A \<and> i < length A \<and> selectedPivot h A b i = Fin 0"
  then show "\<not> isFinite (snd (solve h A b) ! (length A - 1))"
    by (intro zero_pivot_last_component[of A b i h]) simp_all
qed

theorem solve_returns_without_pivot_check_witness:
  "length (snd (solve [[Fin 1, Fin 1], [Fin 0, Fin 0], [Fin 1, Fin 1]] [0, 1] 2)) = 2
   \<and> selectedPivot [[Fin 1, Fin 1], [Fin 0, Fin 0], [Fin 1, Fin 1]] [0, 1] 2 1 = Fin 0
   \<and> \<not> isFinite (snd (solve [[Fin 1, Fin 1], [Fin 0, Fin 0], [Fin 1, Fin 1]] [0, 1] 2) ! 1)"
proof -
  let ?h = "[[Fin 1, Fin 1], [Fin 0, Fin 0], [Fin 1, Fin 1]]"
  have pivot: "selectedPivot ?h [0, 1] 2 1 = Fin 0"
    by (simp add: selectedPivot_def solve_defs upt_rec cong: let_weak_cong)
  from solve_returns_without_pivot_check[of ?h "[0, 1]" 2 1] pivot show ?thesis
    by simp
qed

section \<open>Properties of the resampling loop\<close>

lemma num_add: "num a + num b = num (a + b)"
  by (simp add: num_def)

lemma num_mult: "num a * num b = num (a * b)"
  by (simp add: num_def)

lemma Fin_numeral_num: "Fin 4 = num 4" "Fin 1 = num 1" "Fin 2 = num 2" "Fin 3 = num 3"
  by (simp_all add: num_def)

lemma indexOf_num: "indexOf (num k) = Some k"
  by (simp add: num_def)

lemma getPixel_num: "k < length xs \<Longrightarrow> getPixel xs (num k) = Fin (real (unat (xs ! k)))"
  by (simp add: getPixel_def indexOf_num)

lemma setPixel_num: "k < length xs \<Longrightarrow> setPixel xs (num k) v = xs[k := toUint8Clamp v]"
  by (simp add: setPixel_def indexOf_num)

lemma length_setPixel: "length (setPixel xs i v) = length xs"
  by (simp add: setPixel_def split: option.splits)

lemma floorN_nonneg: "0 \<le> r \<Longrightarrow> floorN (Fin r) = num (nat \<lfloor>r\<rfloor>)"
  by (simp add: num_def)

lemma pixel_index_bound:
  fixes i j c sw sh :: nat
  assumes "i < sw" and "j < sh" and "c < 4"
  shows "(j * sw + i) * 4 + c < sw * sh * 4"
proof -
  have "j * sw + i < Suc j * sw" using assms(1) by simp
  also have "\<dots> \<le> sh * sw" using assms(2) by (intro mult_le_mono1) simp
  finally have "j * sw + i < sw * sh" by (simp add: mult.commute)
  with assms(3) show ?thesis by simp
qed

lemma inSource_Fin:
  assumes "inSource sw sh (u, v)"
  obtains ur vr where "u = Fin ur" "v = Fin vr" "0 \<le> ur" "ur < real sw - 1" "0 \<le> vr" "vr < real sh - 1"
proof -
  from assms have u: "u \<ge> Fin 0" "u < num sw - Fin 1" and v: "v \<ge> Fin 0" "v < num sh - Fin 1"
    by (simp_all add: inSource_def)
  from u obtain ur where "u = Fin ur" "0 \<le> ur" "ur < real sw - 1"
    by (cases u) (simp_all add: num_def minus_number_def)
  moreover from v obtain vr where "v = Fin vr" "0 \<le> vr" "vr < real sh - 1"
    by (cases v) (simp_all add: num_def minus_number_def)
  ultimately show ?thesis using that by blast
qed

lemma toUint8Clamp_255: "toUint8Clamp (Fin 255) = 255"
  by (simp add: toUint8Clamp_def)

lemma floor_neighbours:
  assumes "0 \<le> r" and "r < real n - 1"
  shows "nat \<lfloor>r\<rfloor> + 1 < n"
proof -
  have "real (nat \<lfloor>r\<rfloor>) \<le> r" using assms(1) by simp
  with assms(2) have "real (nat \<lfloor>r\<rfloor>) + 1 < real n" by linarith
  then show ?thesis by linarith
qed

lemma warpPixel_outside:
  assumes "\<not> inSource sw sh (inverseMap H x y)"
  shows "warpPixel H sData sw sh w y data x = data"
proof -
  let ?dv = "elem H 6 * num x + elem H 7 * num y + Fin 1"
  let ?u = "(elem H 0 * num x + elem H 1 * num y + elem H 2) / ?dv"
  let ?v = "(elem H 3 * num x + elem H 4 * num y + elem H 5) / ?dv"
  from assms have "\<not> (?u \<ge> Fin 0 \<and> ?u < num sw - Fin 1 \<and> ?v \<ge> Fin 0 \<and> ?v < num sh - Fin 1)"
    by (simp add: inSource_def inverseMap_def Let_def)
  then show ?thesis
    unfolding warpPixel_def Let_def by (rule if_not_P)
qed

lemma warpPixel_inside:
  assumes inside: "inverseMap H x y = (Fin ur, Fin vr)" "inSource sw sh (Fin ur, Fin vr)"
    and src: "length sData = sw * sh * 4"
    and dst: "(y * w + x) * 4 + 3 < length data"
  shows "warpPixel H sData sw sh w y data x
           = data[(y * w + x) * 4 := bilinear sData sw ur vr 0,
                  (y * w + x) * 4 + 1 := bilinear sData sw ur vr 1,
                  (y * w + x) * 4 + 2 := bilinear sData sw ur vr 2,
                  (y * w + x) * 4 + 3 := 255]"
proof -
  define u0 where "u0 = nat \<lfloor>ur\<rfloor>"
  define v0 where "v0 = nat \<lfloor>vr\<rfloor>"
  define idx where "idx = (y * w + x) * 4"
  from inside(2) have bounds: "0 \<le> ur" "ur < real sw - 1" "0 \<le> vr" "vr < real sh - 1"
    by (simp_all add: inSource_def num_def minus_number_def)
  have n: "u0 + 1 < sw" "v0 + 1 < sh"
    unfolding u0_def v0_def
    by (rule floor_neighbours[OF bounds(1,2)], rule floor_neighbours[OF bounds(3,4)])
  have fl: "floorN (Fin ur) = num u0" "floorN (Fin vr) = num v0"
    unfolding u0_def v0_def
    by (rule floorN_nonneg[OF bounds(1)], rule floorN_nonneg[OF bounds(3)])
  have inb: "(j * sw + i) * 4 + c < length sData" if "i \<le> u0 + 1" "j \<le> v0 + 1" "c < 4" for i j c
  proof -
    from that n have "i < sw" "j < sh" by simp_all
    from pixel_index_bound[OF this that(3)] show ?thesis by (simp only: src)
  qed
  have px: "getPixel sData (num ((j * sw + i) * 4 + c)) = Fin (real (unat (sData ! ((j * sw + i) * 4 + c))))"
    if "i \<le> u0 + 1" "j \<le> v0 + 1" "c < 4" for i j c
    by (rule getPixel_num[OF inb[OF that]])
  have px0: "getPixel sData (num ((j * sw + i) * 4)) = Fin (real (unat (sData ! ((j * sw + i) * 4 + 0))))"
    if "i \<le> u0 + 1" "j \<le> v0 + 1" for i j
    using px[OF that, of 0] by simp
  have uv: "(elem H 0 * num x + elem H 1 * num y + elem H 2) / (elem H 6 * num x + elem H 7 * num y + Fin 1) = Fin ur"
    "(elem H 3 * num x + elem H 4 * num y + elem H 5) / (elem H 6 * num x + elem H 7 * num y + Fin 1) = Fin vr"
    using inside(1) by (simp_all add: inverseMap_def Let_def)
  have cond: "(Fin ur \<ge> Fin 0 \<and> Fin ur < num sw - Fin 1 \<and> Fin vr \<ge> Fin 0 \<and> Fin vr < num sh - Fin 1) = True"
    using inside(2) by (simp add: inSource_def)
  have idxs: "(num v0 * num sw + num u0) * Fin 4 = num ((v0 * sw + u0) * 4)"
    "(num v0 * num sw + num (u0 + 1)) * Fin 4 = num ((v0 * sw + (u0 + 1)) * 4)"
    "(num (v0 + 1) * num sw + num u0) * Fin 4 = num (((v0 + 1) * sw + u0) * 4)"
    "(num (v0 + 1) * num sw + num (u0 + 1)) * Fin 4 = num (((v0 + 1) * sw + (u0 + 1)) * 4)"
    "(num y * num w + num x) * Fin 4 = num idx"
    by (simp_all only: Fin_numeral_num num_add num_mult idx_def)
  have plus: "num k + Fin 1 = num (k + 1)" "num k + Fin 2 = num (k + 2)" "num k + Fin 3 = num (k + 3)" for k
    by (simp_all only: Fin_numeral_num num_add)
  have wts: "Fin ur - num u0 = Fin (ur - real u0)" "Fin vr - num v0 = Fin (vr - real v0)"
    by (simp_all add: num_def minus_number_def)
  have one: "Fin 1 - Fin r = Fin (1 - r)" for r
    by (simp add: minus_number_def)
  have d: "idx < length data" "idx + 1 < length data" "idx + 2 < length data" "idx + 3 < length data"
    using dst by (simp_all add: idx_def)
  have le: "u0 \<le> u0 + 1" "u0 + 1 \<le> u0 + 1" "v0 \<le> v0 + 1" "v0 + 1 \<le> v0 + 1"
    "(0::nat) < 4" "(1::nat) < 4" "(2::nat) < 4"
    by simp_all
  have sets: "setPixel (setPixel (setPixel (setPixel data (num idx) p0) (num (idx + 1)) p1)
                (num (idx + 2)) p2) (num (idx + 3)) p3
              = data[idx := toUint8Clamp p0, idx + 1 := toUint8Clamp p1,
                     idx + 2 := toUint8Clamp p2, idx + 3 := toUint8Clamp p3]" for p0 p1 p2 p3
    using d by (simp add: setPixel_num)
  have eq: "warpPixel H sData sw sh w y data x
          = data[idx := toUint8Clamp (Fin ((1 - (ur - real u0)) * (1 - (vr - real v0))
                          * real (unat (sData ! ((v0 * sw + u0) * 4 + 0)))
                        + (ur - real u0) * (1 - (vr - real v0))
                          * real (unat (sData ! ((v0 * sw + (u0 + 1)) * 4 + 0)))
                        + (1 - (ur - real u0)) * (vr - real v0)
                          * real (unat (sData ! (((v0 + 1) * sw + u0) * 4 + 0)))
                        + (ur - real u0) * (vr - real v0)
                          * real (unat (sData ! (((v0 + 1) * sw + (u0 + 1)) * 4 + 0))))),
                 idx + 1 := toUint8Clamp (Fin ((1 - (ur - real u0)) * (1 - (vr - real v0))
                          * real (unat (sData ! ((v0 * sw + u0) * 4 + 1)))
                        + (ur - real u0) * (1 - (vr - real v0))
                          * real (unat (sData ! ((v0 * sw + (u0 + 1)) * 4 + 1)))
                        + (1 - (ur - real u0)) * (vr - real v0)
                          * real (unat (sData ! (((v0 + 1) * sw + u0) * 4 + 1)))
                        + (ur - real u0) * (vr - real v0)
                          * real (unat (sData ! (((v0 + 1) * sw + (u0 + 1)) * 4 + 1))))),
                 idx + 2 := toUint8Clamp (Fin ((1 - (ur - real u0)) * (1 - (vr - real v0))
                          * real (unat (sData ! ((v0 * sw + u0) * 4 + 2)))
                        + (ur - real u0) * (1 - (vr - real v0))
                          * real (unat (sData ! ((v0 * sw + (u0 + 1)) * 4 + 2)))
                        + (1 - (ur - real u0)) * (vr - real v0)
                          * real (unat (sData ! (((v0 + 1) * sw + u0) * 4 + 2)))
                        + (ur - real u0) * (vr - real v0)
                          * real (unat (sData ! (((v0 + 1) * sw + (u0 + 1)) * 4 + 2))))),
                 idx + 3 := toUint8Clamp (Fin 255)]"
    unfolding warpPixel_def Let_def uv fl
    by (simp only: cond if_True idxs plus wts one px0[OF le(1,3)] px0[OF le(2,3)]
        px0[OF le(1,4)] px0[OF le(2,4)]
        px[OF le(1,3) le(6)] px[OF le(2,3) le(6)] px[OF le(1,4) le(6)] px[OF le(2,4) le(6)]
        px[OF le(1,3) le(7)] px[OF le(2,3) le(7)] px[OF le(1,4) le(7)] px[OF le(2,4) le(7)]
        times_number.simps(1) plus_number.simps(1) sets)
  show ?thesis
    unfolding eq bilinear_def Let_def u0_def v0_def idx_def toUint8Clamp_255 by (rule refl)
qed

lemma foldl_untouched:
  fixes f :: "'a list \<Rightarrow> 'b \<Rightarrow> 'a list"
  assumes "\<And>d z. z \<in> set zs \<Longrightarrow> length d = n \<Longrightarrow> length (f d z) = n \<and> f d z ! k = d ! k"
    and "length d0 = n"
  shows "length (foldl f d0 zs) = n \<and> foldl f d0 zs ! k = d0 ! k"
  using assms
proof (induction zs arbitrary: d0)
  case Nil
  then show ?case by simp
next
  case (Cons z zs)
  have step: "length (f d0 z) = n \<and> f d0 z ! k = d0 ! k"
    by (rule Cons.prems(1)) (simp_all add: Cons.prems(2))
  have "length (foldl f (f d0 z) zs) = n \<and> foldl f (f d0 z) zs ! k = f d0 z ! k"
    by (rule Cons.IH) (simp_all add: Cons.prems(1) step)
  with step show ?case by simp
qed

lemma foldl_writes_once:
  fixes f :: "'a list \<Rightarrow> 'b \<Rightarrow> 'a list"
  assumes len: "\<And>d z'. z' \<in> set zs \<Longrightarrow> length d = n \<Longrightarrow> length (f d z') = n"
    and other: "\<And>d z'. z' \<in> set zs \<Longrightarrow> z' \<noteq> z \<Longrightarrow> length d = n \<Longrightarrow> f d z' ! k = d ! k"
    and this: "\<And>d. length d = n \<Longrightarrow> f d z ! k = (if c then v else d ! k)"
    and "z \<in> set zs" and "distinct zs" and "length d0 = n"
  shows "foldl f d0 zs ! k = (if c then v else d0 ! k)"
  using assms
proof (induction zs arbitrary: d0)
  case Nil
  then show ?case by simp
next
  case (Cons z0 zs)
  have len1: "length (f d0 z0) = n"
    by (rule Cons.prems(1)) (simp_all add: Cons.prems(6))
  show ?case
  proof (cases "z0 = z")
    case True
    then have notin: "z \<notin> set zs" using Cons.prems(5) by simp
    have "length (foldl f (f d0 z0) zs) = n \<and> foldl f (f d0 z0) zs ! k = f d0 z0 ! k"
    proof (rule foldl_untouched[OF _ len1])
      fix d :: "'a list" and z' assume "z' \<in> set zs" "length d = n"
      then show "length (f d z') = n \<and> f d z' ! k = d ! k"
        using notin Cons.prems(1)[of z' d] Cons.prems(2)[of z' d] by auto
    qed
    then show ?thesis
      using True Cons.prems(3)[OF Cons.prems(6)] by simp
  next
    case False
    then have "z \<in> set zs" using Cons.prems(4) by simp
    moreover have "distinct zs" using Cons.prems(5) by simp
    ultimately have "foldl f (f d0 z0) zs ! k = (if c then v else f d0 z0 ! k)"
      using Cons.prems(1,2,3) len1 by (intro Cons.IH) simp_all
    moreover have "f d0 z0 ! k = d0 ! k"
      using False Cons.prems(6) by (intro Cons.prems(2)) simp_all
    ultimately show ?thesis by simp
  qed
qed

lemma pixel_cell_inj:
  fixes x y c x' y' c' w :: nat
  assumes "x < w" and "x' < w" and "c < 4" and "c' < 4"
    and "(y * w + x) * 4 + c = (y' * w + x') * 4 + c'"
  shows "x = x' \<and> y = y' \<and> c = c'"
proof -
  define p where "p = y * w + x"
  define p' where "p' = y' * w + x'"
  from assms(3,4,5) have pc: "p = p' \<and> c = c'"
    unfolding p_def[symmetric] p'_def[symmetric] by arith
  have "p div w = y" "p mod w = x" "p' div w = y'" "p' mod w = x'"
    using assms(1,2) by (simp_all add: p_def p'_def)
  with pc show ?thesis by auto
qed

lemma length_warpPixel: "length (warpPixel H sData sw sh w y data x) = length data"
  by (simp add: warpPixel_def Let_def length_setPixel)

lemma warpPixel_other:
  assumes "x < w" and "x' < w" and "y' < h" and "c < 4"
    and "(x', y') \<noteq> (x, y)"
    and "length data = w * h * 4" and "length sData = sw * sh * 4"
  shows "warpPixel H sData sw sh w y' data x' ! ((y * w + x) * 4 + c) = data ! ((y * w + x) * 4 + c)"
proof (cases "inSource sw sh (inverseMap H x' y')")
  case False
  then show ?thesis by (simp add: warpPixel_outside)
next
  case True
  obtain u v where uv: "inverseMap H x' y' = (u, v)"
    by (cases "inverseMap H x' y'") auto
  with True obtain ur vr where fin: "u = Fin ur" "v = Fin vr"
    by (auto elim: inSource_Fin)
  have dst: "(y' * w + x') * 4 + 3 < length data"
    using pixel_index_bound[OF assms(2,3), of 3] assms(6) by simp
  have ne: "(y' * w + x') * 4 + c' \<noteq> (y * w + x) * 4 + c" if "c' < 4" for c'
    using pixel_cell_inj[OF assms(2,1) that assms(4), of y' y] assms(5) by auto
  have ne4: "(y' * w + x') * 4 \<noteq> (y * w + x) * 4 + c"
    "(y' * w + x') * 4 + 1 \<noteq> (y * w + x) * 4 + c"
    "(y' * w + x') * 4 + 2 \<noteq> (y * w + x) * 4 + c"
    "(y' * w + x') * 4 + 3 \<noteq> (y * w + x) * 4 + c"
    using ne[of 0] ne[of 1] ne[of 2] ne[of 3] by simp_all
  from True uv fin have "warpPixel H sData sw sh w y' data x'
      = data[(y' * w + x') * 4 := bilinear sData sw ur vr 0,
             (y' * w + x') * 4 + 1 := bilinear sData sw ur vr 1,
             (y' * w + x') * 4 + 2 := bilinear sData sw ur vr 2,
             (y' * w + x') * 4 + 3 := 255]"
    by (intro warpPixel_inside[OF _ _ assms(7) dst]) simp_all
  then show ?thesis
    by (simp only: nth_list_update_neq[OF ne4(1)] nth_list_update_neq[OF ne4(2)]
        nth_list_update_neq[OF ne4(3)] nth_list_update_neq[OF ne4(4)])
qed

lemma warpPixel_this:
  assumes "inverseMap H x y = (Fin ur, Fin vr)" and "inSource sw sh (Fin ur, Fin vr)"
    and "x < w" and "y < h" and "c < 4"
    and "length data = w * h * 4" and "length sData = sw * sh * 4"
  shows "warpPixel H sData sw sh w y data x ! ((y * w + x) * 4 + c)
           = [bilinear sData sw ur vr 0, bilinear sData sw ur vr 1, bilinear sData sw ur vr 2, 255] ! c"
proof -
  have dst: "(y * w + x) * 4 + 3 < length data"
    using pixel_index_bound[OF assms(3,4), of 3] assms(6) by simp
  from assms(5) consider "c = 0" | "c = 1" | "c = 2" | "c = 3" by linarith
  then show ?thesis
    using dst by cases (simp_all add: warpPixel_inside[OF assms(1,2,7) dst])
qed

lemma inner_loop_length:
  "length (foldl (warpPixel H sData sw sh w y) data xs) = length data"
  by (induction xs arbitrary: data) (simp_all add: length_warpPixel)

lemma inner_loop_other_row:
  assumes "x < w" and "y' < h" and "c < 4" and "y' \<noteq> y"
    and "length data = w * h * 4" and "length sData = sw * sh * 4"
  shows "foldl (warpPixel H sData sw sh w y') data [0 ..< w] ! ((y * w + x) * 4 + c)
           = data ! ((y * w + x) * 4 + c)"
proof -
  have "length (foldl (warpPixel H sData sw sh w y') data [0 ..< w]) = w * h * 4
        \<and> foldl (warpPixel H sData sw sh w y') data [0 ..< w] ! ((y * w + x) * 4 + c)
            = data ! ((y * w + x) * 4 + c)"
  proof (rule foldl_untouched[OF _ assms(5)])
    fix d :: pixels and x'
    assume "x' \<in> set [0 ..< w]" and d: "length d = w * h * 4"
    then have "x' < w" by simp
    from warpPixel_other[OF assms(1) this assms(2,3) _ d assms(6)] assms(4) d
    show "length (warpPixel H sData sw sh w y' d x') = w * h * 4
            \<and> warpPixel H sData sw sh w y' d x' ! ((y * w + x) * 4 + c) = d ! ((y * w + x) * 4 + c)"
      by (simp add: length_warpPixel)
  qed
  then show ?thesis by simp
qed

lemma warpLoop_cell:
  assumes "x < w" and "y < h" and "c < 4"
    and "length data = w * h * 4" and "length sData = sw * sh * 4"
    and own: "\<And>d. length d = w * h * 4 \<Longrightarrow>
                 warpPixel H sData sw sh w y d x ! ((y * w + x) * 4 + c)
                   = (if written then v else d ! ((y * w + x) * 4 + c))"
  shows "warpLoop H sData sw sh w h data ! ((y * w + x) * 4 + c)
           = (if written then v else data ! ((y * w + x) * 4 + c))"
  unfolding warpLoop_def
proof (rule foldl_writes_once[where n = "w * h * 4" and z = y])
  fix d :: pixels and y'
  assume "length d = w * h * 4"
  then show "length (foldl (warpPixel H sData sw sh w y') d [0 ..< w]) = w * h * 4"
    by (simp add: inner_loop_length)
next
  fix d :: pixels and y'
  assume "y' \<in> set [0 ..< h]" "y' \<noteq> y" "length d = w * h * 4"
  then show "foldl (warpPixel H sData sw sh w y') d [0 ..< w] ! ((y * w + x) * 4 + c)
               = d ! ((y * w + x) * 4 + c)"
    using assms(1,3,5) by (intro inner_loop_other_row) simp_all
next
  fix d :: pixels
  assume d: "length d = w * h * 4"
  show "foldl (warpPixel H sData sw sh w y) d [0 ..< w] ! ((y * w + x) * 4 + c)
          = (if written then v else d ! ((y * w + x) * 4 + c))"
  proof (rule foldl_writes_once[where n = "w * h * 4" and z = x])
    fix d' :: pixels and x'
    assume "length d' = w * h * 4"
    then show "length (warpPixel H sData sw sh w y d' x') = w * h * 4"
      by (simp add: length_warpPixel)
  next
    fix d' :: pixels and x'
    assume "x' \<in> set [0 ..< w]" "x' \<noteq> x" "length d' = w * h * 4"
    then show "warpPixel H sData sw sh w y d' x' ! ((y * w + x) * 4 + c) = d' ! ((y * w + x) * 4 + c)"
      using assms(1,2,3,5) by (intro warpPixel_other) simp_all
  next
    fix d' :: pixels
    assume "length d' = w * h * 4"
    then show "warpPixel H sData sw sh w y d' x ! ((y * w + x) * 4 + c)
                 = (if written then v else d' ! ((y * w + x) * 4 + c))"
      by (rule own)
  qed (use assms(1) d in simp_all)
qed (use assms(2,4) in simp_all)

lemma createImageData_zero:
  "length (createImageData w h) = w * h * 4"
  "k < w * h * 4 \<Longrightarrow> createImageData w h ! k = 0"
  by (simp_all add: createImageData_def)

text \<open>
  Claim C7: after the loop over a freshly created destination buffer, the destination
  pixel \<open>(x, y)\<close> whose source coordinate \<open>(u, v)\<close> is outside
  \<open>[0, sw - 1) \<times> [0, sh - 1)\<close> still has its initial value, all four channels and so the
  alpha channel \<open>0\<close>; the pixel whose source coordinate is inside has in each of R, G, B
  the bilinear interpolation of the four neighbouring source pixels, as stored in a byte,
  and alpha \<open>255\<close>.
\<close>

theorem resampler_pixel:
  assumes "x < w" and "y < h" and "length sData = sw * sh * 4"
  shows "let data = warpLoop H sData sw sh w h (createImageData w h);
             idx = (y * w + x) * 4
         in case inverseMap H x y of
              (u, v) \<Rightarrow>
                if inSource sw sh (u, v)
                then \<exists>ur vr. u = Fin ur \<and> v = Fin vr
                       \<and> data ! idx = bilinear sData sw ur vr 0
                       \<and> data ! (idx + 1) = bilinear sData sw ur vr 1
                       \<and> data ! (idx + 2) = bilinear sData sw ur vr 2
                       \<and> data ! (idx + 3) = 255
                else data ! idx = 0 \<and> data ! (idx + 1) = 0
                       \<and> data ! (idx + 2) = 0 \<and> data ! (idx + 3) = 0"
proof -
  let ?d0 = "createImageData w h"
  let ?data = "warpLoop H sData sw sh w h ?d0"
  let ?idx = "(y * w + x) * 4"
  obtain u v where uv: "inverseMap H x y = (u, v)"
    by (cases "inverseMap H x y") auto
  have len: "length ?d0 = w * h * 4"
    by (rule createImageData_zero)
  have zero: "?d0 ! (?idx + c) = 0" if "c < 4" for c
    using pixel_index_bound[OF assms(1,2) that] by (intro createImageData_zero)
  show ?thesis
  proof (cases "inSource sw sh (u, v)")
    case True
    then obtain ur vr where fin: "u = Fin ur" "v = Fin vr"
      by (auto elim: inSource_Fin)
    have cell: "?data ! (?idx + c)
        = [bilinear sData sw ur vr 0, bilinear sData sw ur vr 1, bilinear sData sw ur vr 2, 255] ! c"
      if "c < 4" for c
      using warpLoop_cell[OF assms(1,2) that len assms(3), where written = True and H = H
          and v = "[bilinear sData sw ur vr 0, bilinear sData sw ur vr 1, bilinear sData sw ur vr 2, 255] ! c"]
        warpPixel_this[OF _ _ assms(1,2) that _ assms(3), of H ur vr] uv fin True
      by simp
    from cell[of 0] cell[of 1] cell[of 2] cell[of 3] show ?thesis
      using uv fin True by (simp add: Let_def)
  next
    case False
    have cell: "?data ! (?idx + c) = 0" if "c < 4" for c
      using warpLoop_cell[OF assms(1,2) that len assms(3), where written = False and H = H]
        warpPixel_outside[of sw sh H x y] uv False zero[OF that]
      by simp
    from cell[of 0] cell[of 1] cell[of 2] cell[of 3] show ?thesis
      using uv False by (simp add: Let_def)
  qed
qed

theorem resampler_pixel_witness:
  "warpLoop [Fin 1, Fin 0, Fin 0.5, Fin 0, Fin 1, Fin 0.5, Fin 0, Fin 0, Fin 1]
     [10, 20, 30, 255, 50, 60, 70, 255, 90, 100, 110, 255, 130, 140, 150, 255] 2 2 2 2
     (createImageData 2 2) ! 0 = 70
   \<and> warpLoop [Fin 1, Fin 0, Fin 0.5, Fin 0, Fin 1, Fin 0.5, Fin 0, Fin 0, Fin 1]
     [10, 20, 30, 255, 50, 60, 70, 255, 90, 100, 110, 255, 130, 140, 150, 255] 2 2 2 2
     (createImageData 2 2) ! 3 = 255"
proof -
  let ?H = "[Fin 1, Fin 0, Fin 0.5, Fin 0, Fin 1, Fin 0.5, Fin 0, Fin 0, Fin 1]"
  let ?s = "[10, 20, 30, 255, 50, 60, 70, 255, 90, 100, 110, 255, 130, 140, 150, 255] :: pixels"
  have h: "(0::nat) < 2" "length ?s = 2 * 2 * 4" by simp_all
  have uv: "inverseMap ?H 0 0 = (Fin (1/2), Fin (1/2))"
    by (simp add: inverseMap_def elem_def num_def Let_def)
  have ins: "inSource 2 2 (Fin (1/2), Fin (1/2))"
    by (simp add: inSource_def num_def minus_number_def)
  have half: "bilinear ?s 2 (1 / 2) (1 / 2) 0 = 70"
    by (simp add: bilinear_def toUint8Clamp_def Let_def)
  have b0: "bilinear ?s 2 ur vr 0 = 70" if "ur * 2 = 1" "vr * 2 = 1" for ur vr :: real
  proof -
    from that have "ur = 1 / 2" "vr = 1 / 2" by simp_all
    with half show ?thesis by (simp only:)
  qed
  from resampler_pixel[OF h(1) h(1) h(2), of ?H] uv ins show ?thesis
    by (auto simp: Let_def b0)
qed

section \<open>Effects of the core operations on their arguments\<close>

lemma swapRows_low:
  assumes "a \<noteq> b" and "j < i"
  shows "rd (swapRows h A b i mr) a j = rd h a j"
proof -
  define P where "P = (\<lambda>h'. rd h' a j = rd h a j)"
  let ?body = "\<lambda>h k. let tmp = rd h (A ! mr) k;
                          h' = wr h (A ! mr) k (rd h (A ! i) k)
                      in wr h' (A ! i) k tmp"
  have "P (foldl ?body h [i ..< length A])"
  proof (rule foldl_preserves[where P = P])
    fix h' k assume "k \<in> set [i ..< length A]" and "P h'"
    then show "P (?body h' k)"
      using assms(2) by (auto simp: P_def Let_def rd_wr)
  qed (simp add: P_def)
  then have "P (swapRows h A b i mr)"
    using assms(1) by (simp add: P_def swapRows_def Let_def rd_wr)
  then show ?thesis by (simp add: P_def)
qed

lemma eliminateRow_other:
  assumes "a \<noteq> b" and "j < i \<or> a \<noteq> A ! k"
  shows "rd (eliminateRow A b i h k) a j = rd h a j"
proof -
  define P where "P = (\<lambda>h'. rd h' a j = rd h a j)"
  have "P (foldl (\<lambda>h j. if i = j then wr h (A ! k) j (Fin 0)
                         else wr h (A ! k) j (rd h (A ! k) j + c * rd h (A ! i) j))
             h [i ..< length A])" for c
  proof (rule foldl_preserves[where P = P])
    fix h' j' assume "j' \<in> set [i ..< length A]" and "P h'"
    then show "P (if i = j' then wr h' (A ! k) j' (Fin 0)
                  else wr h' (A ! k) j' (rd h' (A ! k) j' + c * rd h' (A ! i) j'))"
      using assms(2) by (auto simp: P_def rd_wr)
  qed (simp add: P_def)
  then have "P (eliminateRow A b i h k)"
    using assms(1) by (simp add: P_def eliminateRow_def Let_def rd_wr)
  then show ?thesis by (simp add: P_def)
qed

lemma foldl_length:
  fixes f :: "heap \<Rightarrow> 'x \<Rightarrow> heap"
  assumes "\<And>h x. length (f h x) = length h"
  shows "length (foldl f h xs) = length h"
  using assms by (induction xs arbitrary: h) simp_all

lemma length_eliminateRow: "length (eliminateRow A b i h k) = length h"
  by (simp add: eliminateRow_def Let_def length_wr foldl_length)

lemma length_pivotStep: "length (pivotStep A b h i) = length h"
  by (simp add: pivotStep_def Let_def foldl_length length_eliminateRow length_swapRows)

lemma eliminateRow_clears:
  assumes "A ! k < length h" and "b \<noteq> A ! k" and "i < length A"
  shows "rd (eliminateRow A b i h k) (A ! k) i = Fin 0"
proof -
  define P where "P = (\<lambda>h'. length h' = length h \<and> rd h' (A ! k) i = Fin 0)"
  have split: "[i ..< length A] = i # [i + 1 ..< length A]"
    using assms(3) by (simp add: upt_rec)
  have "P (foldl (\<lambda>h j. if i = j then wr h (A ! k) j (Fin 0)
                         else wr h (A ! k) j (rd h (A ! k) j + c * rd h (A ! i) j))
             (wr h (A ! k) i (Fin 0)) [i + 1 ..< length A])" for c
  proof (rule foldl_preserves[where P = P])
    fix h' j' assume "j' \<in> set [i + 1 ..< length A]" and "P h'"
    then show "P (if i = j' then wr h' (A ! k) j' (Fin 0)
                  else wr h' (A ! k) j' (rd h' (A ! k) j' + c * rd h' (A ! i) j'))"
      by (auto simp: P_def rd_wr length_wr)
  qed (simp add: P_def rd_wr length_wr assms(1))
  then have "P (eliminateRow A b i h k)"
    using assms(2) by (simp add: P_def eliminateRow_def Let_def split rd_wr length_wr)
  then show ?thesis by (simp add: P_def)
qed

lemma foldl_eliminateRow_clears:
  assumes "distinct A" and "b \<notin> set A"
  shows "\<forall>k \<in> set ks. k < length A \<Longrightarrow> \<forall>a \<in> set A. a < length h \<Longrightarrow> i < length A \<Longrightarrow>
         \<forall>k \<in> D. k < length A \<and> rd h (A ! k) i = Fin 0 \<Longrightarrow>
         \<forall>k \<in> D \<union> set ks. rd (foldl (eliminateRow A b i) h ks) (A ! k) i = Fin 0"
proof (induction ks arbitrary: h D)
  case Nil
  then show ?case by simp
next
  case (Cons k ks)
  let ?h1 = "eliminateRow A b i h k"
  from Cons.prems(1) have k: "k < length A" and rest: "\<forall>k \<in> set ks. k < length A" by simp_all
  have nb: "b \<noteq> A ! k'" if "k' < length A" for k'
    using that assms(2) by auto
  have valid: "\<forall>a \<in> set A. a < length ?h1"
    using Cons.prems(2) by (simp add: length_eliminateRow)
  have "A ! k < length h" using k Cons.prems(2) by simp
  from eliminateRow_clears[OF this nb[OF k] Cons.prems(3)]
  have own: "rd ?h1 (A ! k) i = Fin 0" .
  have "\<forall>k' \<in> insert k D. k' < length A \<and> rd ?h1 (A ! k') i = Fin 0"
  proof
    fix k' assume k': "k' \<in> insert k D"
    show "k' < length A \<and> rd ?h1 (A ! k') i = Fin 0"
    proof (cases "k' = k")
      case True
      with own k show ?thesis by simp
    next
      case False
      with k' Cons.prems(4) have 1: "k' < length A" "rd h (A ! k') i = Fin 0" by auto
      with False k assms(1) have "A ! k' \<noteq> A ! k" by (simp add: nth_eq_iff_index_eq)
      with eliminateRow_other[of "A ! k'" b i i A k h] nb[OF 1(1)] 1 show ?thesis by simp
    qed
  qed
  from Cons.IH[OF rest valid Cons.prems(3) this] show ?case by simp
qed

lemma pivotStep_lowerZero:
  assumes "distinct A" and "b \<notin> set A" and "\<forall>a \<in> set A. a < length h"
    and "m < length A" and "lowerZero A m h"
  shows "lowerZero A (m + 1) (pivotStep A b h m)"
proof -
  let ?h1 = "swapRows h A b m (findPivot h A m)"
  let ?h2 = "foldl (eliminateRow A b m) ?h1 [m + 1 ..< length A]"
  have nb: "A ! k \<noteq> b" if "k < length A" for k
    using that assms(2) by auto
  have valid1: "\<forall>a \<in> set A. a < length ?h1"
    using assms(3) by (simp add: length_swapRows)
  have low: "rd ?h2 (A ! k) i = rd h (A ! k) i" if "i < m" "k < length A" for i k
  proof -
    define P where "P = (\<lambda>h'. rd h' (A ! k) i = rd h (A ! k) i)"
    have "P ?h2"
    proof (rule foldl_preserves[where P = P])
      fix h' k' assume "P h'"
      then show "P (eliminateRow A b m h' k')"
        using eliminateRow_other[of "A ! k" b i m A k' h'] nb[OF that(2)] that(1)
        by (simp add: P_def)
    qed (simp add: P_def swapRows_low[OF nb[OF that(2)] that(1)])
    then show ?thesis by (simp add: P_def)
  qed
  have col: "\<forall>k \<in> {} \<union> set [m + 1 ..< length A]. rd ?h2 (A ! k) m = Fin 0"
    by (rule foldl_eliminateRow_clears[OF assms(1,2) _ valid1 assms(4)]) simp_all
  show ?thesis
    unfolding lowerZero_def
  proof (intro allI impI)
    fix i k assume ik: "i < m + 1 \<and> i < k \<and> k < length A"
    show "rd (pivotStep A b h m) (A ! k) i = Fin 0"
    proof (cases "i = m")
      case True
      with ik col show ?thesis by (simp add: pivotStep_def Let_def)
    next
      case False
      with ik have "i < m" by simp
      with low[OF this, of k] ik assms(5) show ?thesis
        by (simp add: pivotStep_def Let_def lowerZero_def)
    qed
  qed
qed

lemma forwardElimination_lowerZero:
  assumes "distinct A" and "b \<notin> set A" and "\<forall>a \<in> set A. a < length h"
  shows "lowerZero A (length A) (forwardElimination h A b)"
proof -
  have "m \<le> length A \<Longrightarrow>
        lowerZero A m (foldl (pivotStep A b) h [0 ..< m])
        \<and> length (foldl (pivotStep A b) h [0 ..< m]) = length h" for m
  proof (induction m)
    case 0
    show ?case by (simp add: lowerZero_def)
  next
    case (Suc m)
    let ?hm = "foldl (pivotStep A b) h [0 ..< m]"
    from Suc have ih: "lowerZero A m ?hm" "length ?hm = length h" and m: "m < length A" by simp_all
    have "\<forall>a \<in> set A. a < length ?hm" using assms(3) ih(2) by simp
    from pivotStep_lowerZero[OF assms(1,2) this m ih(1)] ih(2) show ?case
      by (simp add: length_pivotStep)
  qed
  from this[of "length A"] show ?thesis
    by (simp add: forwardElimination_def)
qed

lemma solve_in_place:
  assumes "distinct A" and "b \<notin> set A" and "\<forall>a \<in> set A. a < length h"
    and "i < k" and "k < length A"
  shows "rd (fst (solve h A b)) (A ! k) i = Fin 0"
  using forwardElimination_lowerZero[OF assms(1,2,3)] assms(4,5)
  by (simp add: solve_def Let_def lowerZero_def)

lemma load_store:
  "a \<noteq> a' \<Longrightarrow> load (store bufs a i v) a' j = load bufs a' j"
  by (simp add: load_def store_def)

lemma store_eq:
  "a < length bufs \<Longrightarrow> store (bufs[a := xs]) a i v = bufs[a := setPixel xs i v]"
  by (simp add: store_def)

lemma store_first:
  "a < length bufs \<Longrightarrow> store bufs a i v = bufs[a := setPixel (bufs ! a) i v]"
  by (simp add: store_def)

lemma load_update:
  "a \<noteq> a' \<Longrightarrow> load (bufs[a := xs]) a' j = load bufs a' j"
  by (simp add: load_def)

lemma load_valid: "a < length bufs \<Longrightarrow> load bufs a j = getPixel (bufs ! a) j"
  by (simp add: load_def)

lemma warpPixelIn_eq:
  assumes "sData < length bufs" and "data < length bufs" and "sData \<noteq> data"
  shows "warpPixelIn H sData sw sh data w y bufs x
           = bufs[data := warpPixel H (bufs ! sData) sw sh w y (bufs ! data) x]"
  using assms
  by (simp add: warpPixelIn_def warpPixel_def Let_def store_first store_eq load_update load_valid
      cong: if_cong)

lemma foldl_warpPixelIn:
  assumes "sData \<noteq> data"
  shows "sData < length bufs \<Longrightarrow> data < length bufs \<Longrightarrow>
         foldl (warpPixelIn H sData sw sh data w y) bufs xs
           = bufs[data := foldl (warpPixel H (bufs ! sData) sw sh w y) (bufs ! data) xs]"
proof (induction xs arbitrary: bufs)
  case Nil
  then show ?case by simp
next
  case (Cons x xs)
  let ?d1 = "warpPixel H (bufs ! sData) sw sh w y (bufs ! data) x"
  let ?b1 = "bufs[data := ?d1]"
  have step: "warpPixelIn H sData sw sh data w y bufs x = ?b1"
    by (rule warpPixelIn_eq[OF Cons.prems assms])
  have "sData < length ?b1" "data < length ?b1" using Cons.prems by simp_all
  from Cons.IH[OF this] show ?case
    using assms Cons.prems by (simp add: step)
qed

lemma warpLoopIn_eq:
  assumes "sData < length bufs" and "data < length bufs" and "sData \<noteq> data"
  shows "warpLoopIn bufs H sData sw sh data w h
           = bufs[data := warpLoop H (bufs ! sData) sw sh w h (bufs ! data)]"
proof -
  have "sData < length bufs \<Longrightarrow> data < length bufs \<Longrightarrow>
        foldl (\<lambda>bufs y. foldl (warpPixelIn H sData sw sh data w y) bufs [0 ..< w]) bufs ys
          = bufs[data := foldl (\<lambda>d y. foldl (warpPixel H (bufs ! sData) sw sh w y) d [0 ..< w])
                           (bufs ! data) ys]" for ys bufs
  proof (induction ys arbitrary: bufs)
    case Nil
    then show ?case by simp
  next
    case (Cons y ys)
    let ?d1 = "foldl (warpPixel H (bufs ! sData) sw sh w y) (bufs ! data) [0 ..< w]"
    let ?b1 = "bufs[data := ?d1]"
    have step: "foldl (warpPixelIn H sData sw sh data w y) bufs [0 ..< w] = ?b1"
      by (rule foldl_warpPixelIn[OF assms(3) Cons.prems])
    have "sData < length ?b1" "data < length ?b1" using Cons.prems by simp_all
    from Cons.IH[OF this] show ?case
      using assms(3) Cons.prems by (simp add: step)
  qed
  from this[OF assms(1,2)] show ?thesis
    by (simp add: warpLoopIn_def warpLoop_def)
qed

lemma layoutLoop_take_Suc:
  "m < length xs \<Longrightarrow> layoutLoop cfg (take (Suc m) xs) = addImage cfg (layoutLoop cfg (take m xs)) (xs ! m)"
  by (simp add: take_Suc_conv_app_nth layoutLoop_snoc)

lemma addImageIn_fresh:
  assumes "images < length arrs" and "take (length arrs) arrs1 = arrs"
    and "length arrs \<le> cr" and "cr < length arrs1" and "i < length (arrs ! images)"
    and "addImageIn cfg images (arrs1, cr, layout, cy) i = (arrs', cr', layout', cy')"
  shows "take (length arrs) arrs' = arrs \<and> length arrs \<le> cr' \<and> cr' < length arrs'
         \<and> (layout', arrs' ! cr', cy') = addImage cfg (layout, arrs1 ! cr, cy) (arrs ! images ! i)"
proof -
  have img: "arrs1 ! images = arrs ! images"
    using assms(1,2) by (metis nth_take)
  let ?a1 = "arrs1[cr := arrs1 ! cr @ [arrs ! images ! i]]"
  have keep: "take (length arrs) ?a1 = arrs"
    using assms(2,3) by (simp add: take_update_cancel)
  have row: "?a1 ! cr = arrs1 ! cr @ [arrs ! images ! i]"
    using assms(4) by simp
  show ?thesis
  proof (cases "canvasSize cfg * targetRowHeightRatio cfg * totalAspect (?a1 ! cr)
                  + num (length (?a1 ! cr) + 1) * gap cfg \<ge> canvasSize cfg")
    case True
    with assms(6) have r: "arrs' = ?a1 @ [[]]" "cr' = length ?a1"
      "(layout', cy') = processRow cfg (layout, cy) (?a1 ! cr) False"
      by (auto simp: addImageIn_def img Let_def split: prod.splits)
    have "take (length arrs) arrs' = arrs"
      using keep assms(3,4) by (simp add: r(1))
    moreover have "arrs' ! cr' = []"
      unfolding r(1,2) by (simp add: nth_append)
    ultimately show ?thesis
      using True r assms(3,4) by (auto simp: addImage_def Let_def row split: prod.splits)
  next
    case False
    with assms(6) have r: "arrs' = ?a1" "cr' = cr" "layout' = layout" "cy' = cy"
      by (auto simp: addImageIn_def img Let_def split: prod.splits)
    with False keep assms(3,4) show ?thesis
      by (auto simp: addImage_def Let_def row)
  qed
qed

lemma foldl_addImageIn_fresh:
  assumes "images < length arrs"
  shows "m \<le> length (arrs ! images) \<Longrightarrow>
         foldl (addImageIn cfg images) (arrs @ [[]], length arrs, [], gap cfg) [0 ..< m]
           = (arrs', cr', layout', cy') \<Longrightarrow>
         take (length arrs) arrs' = arrs \<and> length arrs \<le> cr' \<and> cr' < length arrs'
         \<and> (layout', arrs' ! cr', cy') = layoutLoop cfg (take m (arrs ! images))"
proof (induction m arbitrary: arrs' cr' layout' cy')
  case 0
  then show ?case by (auto simp: layoutLoop_def)
next
  case (Suc m)
  obtain a1 c1 l1 y1 where st:
    "foldl (addImageIn cfg images) (arrs @ [[]], length arrs, [], gap cfg) [0 ..< m] = (a1, c1, l1, y1)"
    by (cases "foldl (addImageIn cfg images) (arrs @ [[]], length arrs, [], gap cfg) [0 ..< m]") auto
  from Suc.prems(1) have m: "m < length (arrs ! images)" by simp
  from Suc.IH[OF _ st] m have ih: "take (length arrs) a1 = arrs" "length arrs \<le> c1" "c1 < length a1"
    "(l1, a1 ! c1, y1) = layoutLoop cfg (take m (arrs ! images))" by simp_all
  from Suc.prems(2) st have "addImageIn cfg images (a1, c1, l1, y1) m = (arrs', cr', layout', cy')"
    by simp
  from addImageIn_fresh[OF assms ih(1,2,3) m this] ih(4) show ?case
    by (simp add: layoutLoop_take_Suc[OF m])
qed

lemma calculateLayoutIn_eq:
  assumes "images < length arrs" and "calculateLayoutIn arrs images cfg = (arrs', layout)"
  shows "take (length arrs) arrs' = arrs \<and> layout = calculateLayout (arrs ! images) cfg"
proof (cases "length (arrs ! images) = 0")
  case True
  with assms(2) show ?thesis
    by (simp add: calculateLayoutIn_def calculateLayout_def)
next
  case False
  obtain a1 c1 l1 y1 where st:
    "foldl (addImageIn cfg images) (arrs @ [[]], length arrs, [], gap cfg)
       [0 ..< length (arrs ! images)] = (a1, c1, l1, y1)"
    by (cases "foldl (addImageIn cfg images) (arrs @ [[]], length arrs, [], gap cfg)
                 [0 ..< length (arrs ! images)]") auto
  from foldl_addImageIn_fresh[OF assms(1) _ st]
  have 1: "take (length arrs) a1 = arrs" "(l1, a1 ! c1, y1) = layoutLoop cfg (arrs ! images)"
    by simp_all
  from assms(2) False st have "arrs' = a1"
    and "layout = (if length (a1 ! c1) > 0 then fst (processRow cfg (l1, y1) (a1 ! c1) True) else l1)"
    by (auto simp: calculateLayoutIn_def split: if_splits)
  with 1 False show ?thesis
    by (simp add: calculateLayout_def 1(2)[symmetric])
qed

text \<open>
  Claim C9, as stated, fails for the solver: \<open>solve\<close> swaps and eliminates in the arrays
  it is given, without copying them. With the rows \<open>[1, 0]\<close> and \<open>[2, 1]\<close> at references 0 and 1 and
  \<open>b = [1, 4]\<close> at reference 2, the caller's rows are \<open>[2, 1]\<close> and \<open>[0, -1/2]\<close> after
  the call and its \<open>b\<close> is \<open>[4, -1]\<close>.
\<close>

theorem solve_counterexample:
  "solve [[Fin 1, Fin 0], [Fin 2, Fin 1], [Fin 1, Fin 4]] [0, 1] 2
   = ([[Fin 2, Fin 1], [Fin 0, Fin (- 1 / 2)], [Fin 4, Fin (- 1)]], [Fin 1, Fin 2])"
  by (simp add: solve_defs upt_rec cong: let_weak_cong)

text \<open>
  Claim C9, amended. Three of the four core operations leave the arrays of their caller
  as they were: \<open>calculateLayout\<close> pushes only to arrays it has created, and returns the
  layout of the items of \<open>images\<close>; \<open>getHomographyMatrix\<close> builds \<open>A\<close> and \<open>b\<close> itself, and
  every array that existed before the call is unchanged; the resampling loop writes to
  the destination buffer only, and the source buffer, a different array, is unchanged.
  \<open>solve\<close> is the exception: it makes no working copies and eliminates in the rows of the
  \<open>A\<close> and in the \<open>b\<close> of its caller, and writes to no other array. When the rows are
  distinct arrays, none of them \<open>b\<close>, every entry below the diagonal of the caller's matrix
  is \<open>0\<close> after the call, so a matrix with a non-zero entry there has been changed.
\<close>

theorem effects_on_caller_arguments:
  "(\<forall>h' x. solve h A b = (h', x) \<longrightarrow>
       length h' = length h \<and> (\<forall>a < length h. a \<notin> set A \<and> a \<noteq> b \<longrightarrow> h' ! a = h ! a)
       \<and> (distinct A \<and> b \<notin> set A \<and> (\<forall>a \<in> set A. a < length h) \<longrightarrow>
            (\<forall>k < length A. \<forall>i < k. rd h' (A ! k) i = Fin 0)
            \<and> ((\<exists>k < length A. \<exists>i < k. rd h (A ! k) i \<noteq> Fin 0) \<longrightarrow> h' \<noteq> h)))
   \<and> (\<forall>h' H. getHomographyMatrix h src dst = Inr (h', H) \<longrightarrow> take (length h) h' = h)
   \<and> (images < length arrs \<longrightarrow>
        take (length arrs) (fst (calculateLayoutIn arrs images cfg)) = arrs
        \<and> snd (calculateLayoutIn arrs images cfg) = calculateLayout (arrs ! images) cfg)
   \<and> (sData < length bufs \<and> data < length bufs \<and> sData \<noteq> data \<longrightarrow>
        warpLoopIn bufs M sData sw sh data w hh
          = bufs[data := warpLoop M (bufs ! sData) sw sh w hh (bufs ! data)])"
proof -
  have solver: "length h' = length h \<and> (\<forall>a < length h. a \<notin> set A \<and> a \<noteq> b \<longrightarrow> h' ! a = h ! a)
       \<and> (distinct A \<and> b \<notin> set A \<and> (\<forall>a \<in> set A. a < length h) \<longrightarrow>
            (\<forall>k < length A. \<forall>i < k. rd h' (A ! k) i = Fin 0)
            \<and> ((\<exists>k < length A. \<exists>i < k. rd h (A ! k) i \<noteq> Fin 0) \<longrightarrow> h' \<noteq> h))"
    if call: "solve h A b = (h', x)" for h' x
  proof -
    from call have h': "h' = forwardElimination h A b"
      by (simp add: solve_def Let_def)
    with forwardElimination_unchangedOutside[of b A h]
    have frame: "length h' = length h \<and> (\<forall>a < length h. a \<notin> set A \<and> a \<noteq> b \<longrightarrow> h' ! a = h ! a)"
      by (auto simp: unchangedOutside_def)
    have inplace: "(\<forall>k < length A. \<forall>i < k. rd h' (A ! k) i = Fin 0)
            \<and> ((\<exists>k < length A. \<exists>i < k. rd h (A ! k) i \<noteq> Fin 0) \<longrightarrow> h' \<noteq> h)"
      if rows: "distinct A \<and> b \<notin> set A \<and> (\<forall>a \<in> set A. a < length h)"
    proof -
      have zero: "rd h' (A ! k) i = Fin 0" if "i < k" "k < length A" for i k
        using solve_in_place[of A b h i k] rows that call by simp
      then show ?thesis by auto
    qed
    from frame inplace show ?thesis by blast
  qed
  have estimator: "take (length h) h' = h"
    if call: "getHomographyMatrix h src dst = Inr (h', H)" for h' H
  proof -
    let ?b = "length h"
    obtain h1 A' where build:
      "foldl (addCorrespondence ?b) (h @ [[]], []) (zip (take 4 src) (take 4 dst)) = (h1, A')"
      by (cases "foldl (addCorrespondence ?b) (h @ [[]], []) (zip (take 4 src) (take 4 dst))") auto
    from call build have h': "h' = forwardElimination h1 A' ?b"
      by (auto simp: getHomographyMatrix_def alloc_def solve_def Let_def split: if_splits)
    from foldl_addCorrespondence_fresh[OF build]
    have 1: "take ?b h1 = h" "?b < length h1" "\<forall>r \<in> set A'. ?b < r \<and> r < length h1"
      by auto
    have "unchangedOutside (insert ?b (set A')) h1 h'"
      unfolding h' by (rule forwardElimination_unchangedOutside)
    then have "length h' = length h1" "\<forall>a < ?b. h' ! a = h1 ! a"
      using 1(2,3) unfolding unchangedOutside_def
      by (simp, metis insert_iff less_irrefl less_trans)
    then have "take ?b h' = take ?b h1"
      using 1(2) by (auto intro: nth_take_lemma)
    with 1(1) show ?thesis by simp
  qed
  have layout: "take (length arrs) (fst (calculateLayoutIn arrs images cfg)) = arrs
        \<and> snd (calculateLayoutIn arrs images cfg) = calculateLayout (arrs ! images) cfg"
    if "images < length arrs"
    using calculateLayoutIn_eq[OF that, of cfg "fst (calculateLayoutIn arrs images cfg)"
      "snd (calculateLayoutIn arrs images cfg)"] by simp
  have resampler: "warpLoopIn bufs M sData sw sh data w hh
          = bufs[data := warpLoop M (bufs ! sData) sw sh w hh (bufs ! data)]"
    if "sData < length bufs \<and> data < length bufs \<and> sData \<noteq> data"
    using that by (intro warpLoopIn_eq) simp_all
  from solver estimator layout resampler show ?thesis by blast
qed

theorem effects_on_caller_arguments_witness:
  "fst (solve [[Fin 1, Fin 0], [Fin 2, Fin 1], [Fin 1, Fin 4], [Fin 7, Fin 7]] [0, 1] 2) ! 3
     = [Fin 7, Fin 7]
   \<and> rd (fst (solve [[Fin 1, Fin 0], [Fin 2, Fin 1], [Fin 1, Fin 4], [Fin 7, Fin 7]] [0, 1] 2)) 1 0
     = Fin 0
   \<and> fst (solve [[Fin 1, Fin 0], [Fin 2, Fin 1], [Fin 1, Fin 4], [Fin 7, Fin 7]] [0, 1] 2)
     \<noteq> [[Fin 1, Fin 0], [Fin 2, Fin 1], [Fin 1, Fin 4], [Fin 7, Fin 7]]
   \<and> (\<exists>h' H. getHomographyMatrix [[Fin 7]]
                 [\<lparr>pt_x = Fin 0, pt_y = Fin 0\<rparr>, \<lparr>pt_x = Fin 1, pt_y = Fin 0\<rparr>,
                  \<lparr>pt_x = Fin 1, pt_y = Fin 1\<rparr>, \<lparr>pt_x = Fin 0, pt_y = Fin 1\<rparr>]
                 [\<lparr>pt_x = Fin 0, pt_y = Fin 0\<rparr>, \<lparr>pt_x = Fin 1, pt_y = Fin 0\<rparr>,
                  \<lparr>pt_x = Fin 1, pt_y = Fin 1\<rparr>, \<lparr>pt_x = Fin 0, pt_y = Fin 1\<rparr>] = Inr (h', H)
          \<and> take 1 h' = [[Fin 7]])
   \<and> take 1 (fst (calculateLayoutIn
                     [[\<lparr>uid = ''a'', aspectRatio = Fin 1\<rparr>, \<lparr>uid = ''b'', aspectRatio = Fin 1\<rparr>]] 0
                     \<lparr>canvasSize = Fin 400, gap = Fin 0, backgroundColor = ''#000000'',
                      targetRowHeightRatio = Fin 0.5\<rparr>))
       = [[\<lparr>uid = ''a'', aspectRatio = Fin 1\<rparr>, \<lparr>uid = ''b'', aspectRatio = Fin 1\<rparr>]]
   \<and> warpLoopIn [[10, 20, 30, 255, 50, 60, 70, 255, 90, 100, 110, 255, 130, 140, 150, 255],
                  createImageData 2 2]
         [Fin 1, Fin 0, Fin 0.5, Fin 0, Fin 1, Fin 0.5, Fin 0, Fin 0, Fin 1] 0 2 2 1 2 2 ! 0
       = [10, 20, 30, 255, 50, 60, 70, 255, 90, 100, 110, 255, 130, 140, 150, 255]"
proof -
  let ?h = "[[Fin 1, Fin 0], [Fin 2, Fin 1], [Fin 1, Fin 4], [Fin 7, Fin 7]]"
  let ?sq = "[\<lparr>pt_x = Fin 0, pt_y = Fin 0\<rparr>, \<lparr>pt_x = Fin 1, pt_y = Fin 0\<rparr>,
              \<lparr>pt_x = Fin 1, pt_y = Fin 1\<rparr>, \<lparr>pt_x = Fin 0, pt_y = Fin 1\<rparr>]"
  let ?arrs = "[[\<lparr>uid = ''a'', aspectRatio = Fin 1\<rparr>, \<lparr>uid = ''b'', aspectRatio = Fin 1\<rparr>]]"
  let ?cfg = "\<lparr>canvasSize = Fin 400, gap = Fin 0, backgroundColor = ''#000000'',
               targetRowHeightRatio = Fin 0.5\<rparr>"
  let ?s = "[10, 20, 30, 255, 50, 60, 70, 255, 90, 100, 110, 255, 130, 140, 150, 255] :: pixels"
  let ?bufs = "[?s, createImageData 2 2]"
  let ?M = "[Fin 1, Fin 0, Fin 0.5, Fin 0, Fin 1, Fin 0.5, Fin 0, Fin 0, Fin 1]"
  obtain h1 x where s: "solve ?h [0, 1] 2 = (h1, x)"
    by (cases "solve ?h [0, 1] 2") auto
  note solver = effects_on_caller_arguments[of ?h "[0, 1]" 2, THEN conjunct1, rule_format, OF s]
  have "3 < length ?h" "3 \<notin> set [0, 1 :: nat] \<and> 3 \<noteq> (2 :: nat)" by simp_all
  from solver[THEN conjunct2, THEN conjunct1, rule_format, OF this]
  have frame: "h1 ! 3 = [Fin 7, Fin 7]" by simp
  have rows: "distinct [0, 1 :: nat] \<and> 2 \<notin> set [0, 1 :: nat] \<and> (\<forall>a \<in> set [0, 1 :: nat]. a < length ?h)"
    by simp
  note inplace = solver[THEN conjunct2, THEN conjunct2, rule_format, OF rows]
  have "(1 :: nat) < length [0, 1 :: nat]" "(0 :: nat) < 1" by simp_all
  from inplace[THEN conjunct1, rule_format, OF this]
  have zero: "rd h1 1 0 = Fin 0" by simp
  have "\<exists>k < length [0, 1 :: nat]. \<exists>i < k. rd ?h ([0, 1] ! k) i \<noteq> Fin 0"
    by (intro exI[of _ 1] exI[of _ 0]) (simp add: rd_def elem_def)
  from inplace[THEN conjunct2, rule_format, OF this]
  have changed: "h1 \<noteq> ?h" .
  obtain h2 H where g: "getHomographyMatrix [[Fin 7]] ?sq ?sq = Inr (h2, H)"
    by (cases "getHomographyMatrix [[Fin 7]] ?sq ?sq")
       (auto simp: getHomographyMatrix_def Let_def split: prod.splits)
  from effects_on_caller_arguments[of "[[Fin 7]]" _ _ ?sq ?sq,
      THEN conjunct2, THEN conjunct1, rule_format, OF g]
  have estimator: "take 1 h2 = [[Fin 7]]" by simp
  have "(0 :: nat) < length ?arrs" by simp
  from effects_on_caller_arguments[of _ _ _ _ _ 0 ?arrs ?cfg,
      THEN conjunct2, THEN conjunct2, THEN conjunct1, rule_format, OF this]
  have layout: "take 1 (fst (calculateLayoutIn ?arrs 0 ?cfg)) = ?arrs" by simp
  have "(0 :: nat) < length ?bufs \<and> (1 :: nat) < length ?bufs \<and> (0 :: nat) \<noteq> 1" by simp
  from effects_on_caller_arguments[of _ _ _ _ _ _ _ _ 0 ?bufs 1 ?M 2 2 2 2,
      THEN conjunct2, THEN conjunct2, THEN conjunct2, rule_format, OF this]
  have resampler: "warpLoopIn ?bufs ?M 0 2 2 1 2 2 ! 0 = ?s" by simp
  from s frame zero changed g estimator layout resampler show ?thesis
    by (simp del: take_Suc_Cons)
qed

end
